theory Spec2Isabelle
  imports Main "HOL-Library.Code_Target_Nat"
begin

section \<open>Characters and strings\<close>

text \<open>
  The logger works on Python \<open>str\<close> values obtained by
  \<open>o.decode('utf-8', errors='replace')\<close>: sequences of Unicode code points.
  A character is modelled by its code point, a string by the list of its code points.
\<close>

type_synonym uchar = nat
type_synonym ustring = "nat list"

definition u :: "string \<Rightarrow> ustring" where
  \<comment> \<open>the code points of an ASCII literal\<close>
  "u s = map of_char s"

abbreviation BEL :: uchar where "BEL \<equiv> 7"
abbreviation BS :: uchar where "BS \<equiv> 8"
abbreviation LF :: uchar where "LF \<equiv> 10"
abbreviation CR :: uchar where "CR \<equiv> 13"
abbreviation ESC :: uchar where "ESC \<equiv> 27"
abbreviation SP :: uchar where "SP \<equiv> 32"

definition py_isspace :: "uchar \<Rightarrow> bool" where
  \<comment> \<open>the code points for which CPython's \<open>str.isspace\<close> holds; \<open>str.rstrip()\<close>
      with no argument strips exactly these\<close>
  "py_isspace c \<longleftrightarrow>
     (9 \<le> c \<and> c \<le> 13) \<or> (28 \<le> c \<and> c \<le> 32) \<or> c = 133 \<or> c = 160 \<or> c = 5760 \<or>
     (8192 \<le> c \<and> c \<le> 8202) \<or> c = 8232 \<or> c = 8233 \<or> c = 8239 \<or> c = 8287 \<or>
     c = 12288"

definition rstrip :: "ustring \<Rightarrow> ustring" where
  "rstrip s = rev (dropWhile py_isspace (rev s))"

definition startswith :: "ustring \<Rightarrow> ustring \<Rightarrow> bool" where
  "startswith s p \<longleftrightarrow> take (length p) s = p"

definition endswith :: "ustring \<Rightarrow> uchar \<Rightarrow> bool" where
  \<comment> \<open>\<open>seq.endswith(c)\<close> for a one-character suffix\<close>
  "endswith s c \<longleftrightarrow> s \<noteq> [] \<and> last s = c"

fun rfind :: "uchar \<Rightarrow> ustring \<Rightarrow> nat option" where
  \<comment> \<open>\<open>s.rfind(c)\<close>: the highest index of \<open>c\<close>; Python's \<open>-1\<close> is \<open>None\<close>\<close>
  "rfind c [] = None"
| "rfind c (x # xs) =
     (case rfind c xs of
        Some k \<Rightarrow> Some (Suc k)
      | None \<Rightarrow> if x = c then Some 0 else None)"

section \<open>The tokenizer: the pattern of \<open>VT100Lite.process\<close>\<close>

text \<open>
  \<open>token_pattern\<close> is an alternation of three groups, each starting with the escape
  character:
  \<^item> CSI \<^verbatim>\<open>\x1b\[[0-9;?]*[\x40-\x7e]\<close>;
  \<^item> OSC \<^verbatim>\<open>\x1b][0-9]*;.*?(?:\x07|\x1b\\)\<close>, where \<open>.\<close> matches every character
    but the line feed and \<open>.*?\<close> is lazy;
  \<^item> the two-character escapes \<^verbatim>\<open>\x1b[=@>78()EHM]\<close>.
  Each \<open>match_\<close> function returns the length of the match of its group at the head of
  the string, \<open>None\<close> when the group does not match there.
\<close>

definition is_param :: "uchar \<Rightarrow> bool" where
  "is_param c \<longleftrightarrow> (48 \<le> c \<and> c \<le> 57) \<or> c = 59 \<or> c = 63"

definition is_final :: "uchar \<Rightarrow> bool" where
  "is_final c \<longleftrightarrow> 64 \<le> c \<and> c \<le> 126"

definition is_digit :: "uchar \<Rightarrow> bool" where
  "is_digit c \<longleftrightarrow> 48 \<le> c \<and> c \<le> 57"

definition match_csi :: "ustring \<Rightarrow> nat option" where
  "match_csi s =
     (case s of
        e # b # rest \<Rightarrow>
          if e = ESC \<and> b = 91 then
            (case dropWhile is_param rest of
               f # _ \<Rightarrow>
                 if is_final f then Some (length (takeWhile is_param rest) + 3) else None
             | [] \<Rightarrow> None)
          else None
      | _ \<Rightarrow> None)"

fun osc_end :: "ustring \<Rightarrow> nat option" where
  \<comment> \<open>\<^verbatim>\<open>.*?(?:\x07|\x1b\\)\<close>: the length up to and including the first terminator,
      reached over characters other than the line feed\<close>
  "osc_end [] = None"
| "osc_end (c # cs) =
     (if c = BEL then Some 1
      else if c = ESC \<and> (case cs of d # _ \<Rightarrow> d = 92 | [] \<Rightarrow> False) then Some 2
      else if c = LF then None
      else map_option Suc (osc_end cs))"

definition match_osc :: "ustring \<Rightarrow> nat option" where
  "match_osc s =
     (case s of
        e # b # rest \<Rightarrow>
          if e = ESC \<and> b = 93 then
            (case dropWhile is_digit rest of
               sc # content \<Rightarrow>
                 if sc = 59 then
                   map_option (\<lambda>n. length (takeWhile is_digit rest) + 3 + n) (osc_end content)
                 else None
             | [] \<Rightarrow> None)
          else None
      | _ \<Rightarrow> None)"

definition two_char_finals :: "uchar list" where
  \<comment> \<open>\<^verbatim>\<open>=@>78()EHM\<close>\<close>
  "two_char_finals = [61, 64, 62, 55, 56, 40, 41, 69, 72, 77]"

definition match_two :: "ustring \<Rightarrow> nat option" where
  "match_two s =
     (case s of
        e # c # _ \<Rightarrow> if e = ESC \<and> c \<in> set two_char_finals then Some 2 else None
      | _ \<Rightarrow> None)"

definition match_at :: "ustring \<Rightarrow> nat option" where
  \<comment> \<open>the alternation, tried in the pattern's order\<close>
  "match_at s =
     (case match_csi s of
        Some n \<Rightarrow> Some n
      | None \<Rightarrow> (case match_osc s of Some n \<Rightarrow> Some n | None \<Rightarrow> match_two s))"

lemma osc_end_bounds: "osc_end s = Some n \<Longrightarrow> 0 < n \<and> n \<le> length s"
  by (induction s arbitrary: n) (auto split: if_splits list.splits)

lemma match_csi_bounds: "match_csi s = Some n \<Longrightarrow> 0 < n \<and> n \<le> length s"
proof -
  assume a: "match_csi s = Some n"
  then obtain rest where s: "s = ESC # 91 # rest"
    by (auto simp: match_csi_def split: list.splits if_splits)
  have "length (takeWhile is_param rest) + length (dropWhile is_param rest) = length rest"
    by (metis length_append takeWhile_dropWhile_id)
  with a s show ?thesis
    by (auto simp: match_csi_def split: list.splits if_splits)
qed

lemma match_osc_bounds: "match_osc s = Some n \<Longrightarrow> 0 < n \<and> n \<le> length s"
proof -
  assume a: "match_osc s = Some n"
  then obtain rest where s: "s = ESC # 93 # rest"
    by (auto simp: match_osc_def split: list.splits if_splits)
  have l: "length (takeWhile is_digit rest) + length (dropWhile is_digit rest) = length rest"
    by (metis length_append takeWhile_dropWhile_id)
  from a s obtain content m where c: "dropWhile is_digit rest = 59 # content"
    "osc_end content = Some m" "n = length (takeWhile is_digit rest) + 3 + m"
    by (auto simp: match_osc_def split: list.splits if_splits)
  from osc_end_bounds [OF c(2)] c l s show ?thesis by auto
qed

lemma match_two_bounds: "match_two s = Some n \<Longrightarrow> 0 < n \<and> n \<le> length s"
  by (auto simp: match_two_def split: list.splits if_splits)

lemma match_at_bounds: "match_at s = Some n \<Longrightarrow> 0 < n \<and> n \<le> length s"
  unfolding match_at_def
  by (auto split: option.splits dest: match_csi_bounds match_osc_bounds match_two_bounds)

text \<open>
  \<open>token_pattern.split(chunk)\<close> scans for the leftmost match, cuts the text before it and
  the match itself, and goes on after the match. The list it returns also holds a
  \<open>None\<close> for every group that did not take part in a match and an empty string where
  two matches touch; the loop of \<open>process\<close> skips both (\<open>if not part: continue\<close>), so
  \<open>split_parts\<close> returns the parts the loop acts on. \<open>acc\<close> is the text run read since
  the last match.
\<close>

definition text_part :: "ustring \<Rightarrow> ustring list" where
  "text_part acc = (if acc = [] then [] else [acc])"

function split_parts :: "ustring \<Rightarrow> ustring \<Rightarrow> ustring list" where
  "split_parts acc [] = text_part acc"
| "split_parts acc (c # cs) =
     (case match_at (c # cs) of
        Some n \<Rightarrow> text_part acc @ take n (c # cs) # split_parts [] (drop n (c # cs))
      | None \<Rightarrow> split_parts (acc @ [c]) cs)"
  by pat_completeness auto
termination
proof (relation "measure (\<lambda>(acc, s). length s)")
  show "wf (measure (\<lambda>(acc, s). length s))" by simp
next
  fix acc :: ustring and c cs n
  assume "match_at (c # cs) = Some n"
  from match_at_bounds [OF this]
  show "(([], drop n (c # cs)), (acc, c # cs)) \<in> measure (\<lambda>(acc, s). length s)"
    by auto
next
  fix acc :: ustring and c cs
  show "((acc @ [c], cs), (acc, c # cs)) \<in> measure (\<lambda>(acc, s). length s)"
    by simp
qed

section \<open>Exceptions and sequencing\<close>

text \<open>
  The one exception that leaves \<open>VT100Lite.process\<close> is the failure to allocate the
  padding of a write far to the right of the buffer (an \<open>OverflowError\<close> or a
  \<open>MemoryError\<close>); \<open>main\<close> catches only \<open>OSError\<close>. A computation returns the state it
  leaves together with either the error or the lines it has collected. In \<open>and_then\<close>
  the second computation runs in the state the first one left and the lines add up;
  once one raises, nothing more runs and the lines collected so far, a local list of
  the frame, are lost, while the changes already made to the state stay.
\<close>

datatype py_error = AllocationError

type_synonym 'st run = "'st \<times> (py_error + ustring list)"

definition and_then :: "'st run \<Rightarrow> ('st \<Rightarrow> 'st run) \<Rightarrow> 'st run" where
  "and_then r f =
     (case r of
        (s, Inl e) \<Rightarrow> (s, Inl e)
      | (s, Inr l) \<Rightarrow>
          (case f s of (s', Inl e) \<Rightarrow> (s', Inl e) | (s', Inr l') \<Rightarrow> (s', Inr (l @ l'))))"

definition completes :: "'st run \<Rightarrow> bool" where
  \<comment> \<open>the computation returns, it does not raise\<close>
  "completes r = (case snd r of Inl e \<Rightarrow> False | Inr l \<Rightarrow> True)"

section \<open>The interpreter\<close>

text \<open>
  Two things the code leaves to the Python interpreter are parameters of the model.
  \<^item> \<open>int_str\<close> is the builtin \<open>int\<close> on a string, \<open>None\<close> where it raises (the bare
    \<open>except\<close> of the caller then takes over).
  \<^item> \<open>max_gap\<close> bounds the padding \<open>[' '] * (cursor_x - len(buffer) + 1)\<close>: the
    allocation fails when the cursor stands more than \<open>max_gap\<close> columns past the end of
    the buffer. A write at the end of the buffer or inside it always succeeds: memory
    is taken to suffice for the text that was received.
  The theorems hold for every interpreter. \<open>cpython\<close> is the instance used at concrete
  inputs: \<open>int\<close> as CPython 3.11 defines it on every string (Unicode 14.0 for the
  decimal digits, the default limit of 4300 digits), and the largest padding that a
  64-bit CPython does not refuse whatever memory there is.
\<close>

record python =
  int_str :: "ustring \<Rightarrow> int option"
  max_gap :: nat

definition int_space :: "uchar \<Rightarrow> bool" where
  \<comment> \<open>the whitespace \<open>int\<close> skips at both ends: \<open>str.isspace\<close> without the four
      separators \<^verbatim>\<open>\x1c\<close> to \<^verbatim>\<open>\x1f\<close>\<close>
  "int_space c \<longleftrightarrow> py_isspace c \<and> \<not> (28 \<le> c \<and> c \<le> 31)"

definition decimal_starts :: "uchar list" where
  \<comment> \<open>the code points of the digits zero of Unicode 14.0 (general category Nd), each
      followed by its digits one to nine; the mathematical digits from 120782 on are
      five such runs and are treated in \<open>decimal_value\<close>\<close>
  "decimal_starts =
     [48, 1632, 1776, 1984, 2406, 2534, 2662, 2790, 2918, 3046,
      3174, 3302, 3430, 3558, 3664, 3792, 3872, 4160, 4240, 6112,
      6160, 6470, 6608, 6784, 6800, 6992, 7088, 7232, 7248, 42528,
      43216, 43264, 43472, 43504, 43600, 44016, 65296, 66720, 68912, 69734,
      69872, 69942, 70096, 70384, 70736, 70864, 71248, 71360, 71472, 71904,
      72016, 72784, 73040, 73120, 92768, 92864, 93008, 123200, 123632, 125264,
      130032]"

definition decimal_value :: "uchar \<Rightarrow> nat option" where
  "decimal_value c =
     (if 120782 \<le> c \<and> c \<le> 120831 then Some ((c - 120782) mod 10)
      else (case filter (\<lambda>a. a \<le> c \<and> c \<le> a + 9) decimal_starts of
              a # _ \<Rightarrow> Some (c - a)
            | [] \<Rightarrow> None))"

fun parse_digits :: "ustring \<Rightarrow> nat list option" where
  \<comment> \<open>the digits of a numeral; an underscore may stand between two digits\<close>
  "parse_digits [] = None"
| "parse_digits [c] = map_option (\<lambda>d. [d]) (decimal_value c)"
| "parse_digits (c # c' # cs) =
     (case decimal_value c of
        None \<Rightarrow> None
      | Some d \<Rightarrow>
          map_option (\<lambda>ds. d # ds) (if c' = 95 then parse_digits cs else parse_digits (c' # cs)))"

definition cpython_int :: "ustring \<Rightarrow> int option" where
  "cpython_int s =
     (let t = rev (dropWhile int_space (rev (dropWhile int_space s)));
          neg = (t \<noteq> [] \<and> hd t = 45);
          body = (if t \<noteq> [] \<and> (hd t = 45 \<or> hd t = 43) then tl t else t)
      in case parse_digits body of
           None \<Rightarrow> None
         | Some ds \<Rightarrow>
             if length ds > 4300 then None
             else (let v = foldl (\<lambda>a d. 10 * a + int d) 0 ds
                   in Some (if neg then - v else v)))"

definition cpython :: python where
  "cpython = \<lparr>int_str = cpython_int, max_gap = 1152921504606846974\<rparr>"

section \<open>The screen state machine: class \<open>VT100Lite\<close>\<close>

text \<open>
  The fields the constructor sets. \<open>cursor_x\<close> starts at 0 and is only ever assigned 0,
  \<open>max(0, \<dots>)\<close> or its successor, so it is a natural number; \<open>buffer\<close> is the list of
  one-character strings; \<open>last_logged_line\<close> is \<open>None\<close> until the logger sets it.
\<close>

record vt100 =
  cursor_x :: nat
  buffer :: ustring
  in_alt_screen :: bool
  bracketed_paste_mode :: bool
  last_logged_line :: "ustring option"

definition vt_init :: vt100 where
  "vt_init = \<lparr>cursor_x = 0, buffer = [], in_alt_screen = False,
              bracketed_paste_mode = False, last_logged_line = None\<rparr>"

definition flush_line :: "vt100 \<Rightarrow> ustring list" where
  \<comment> \<open>\<open>line_str = "".join(self.buffer).rstrip()\<close>, appended \<open>if line_str\<close>\<close>
  "flush_line s = (let line_str = rstrip (buffer s) in if line_str \<noteq> [] then [line_str] else [])"

definition seq_param :: "ustring \<Rightarrow> ustring" where
  \<comment> \<open>\<open>seq[2:-1]\<close>\<close>
  "seq_param seq = drop 2 (butlast seq)"

definition handle_csi :: "python \<Rightarrow> vt100 \<Rightarrow> ustring \<Rightarrow> vt100 \<times> ustring list" where
  \<comment> \<open>\<open>_handle_csi(seq, out_list)\<close>: the state it leaves and what it appends to
      \<open>out_list\<close>; nothing in it raises past its own \<open>except\<close>\<close>
  "handle_csi py s seq =
     (if seq = ESC # u ''[?1049h'' \<or> seq = ESC # u ''[?47h'' then
        (s\<lparr>in_alt_screen := True\<rparr>, [LF # u ''[LOG: Entered Interactive Mode]''])
      else if seq = ESC # u ''[?1049l'' \<or> seq = ESC # u ''[?47l'' then
        (s\<lparr>in_alt_screen := False\<rparr>, [LF # u ''[LOG: Exited Interactive Mode]''])
      else if seq = ESC # u ''[?2004h'' then (s\<lparr>bracketed_paste_mode := True\<rparr>, [])
      else if seq = ESC # u ''[?2004l'' then (s\<lparr>bracketed_paste_mode := False\<rparr>, [])
      else if endswith seq 75 then
        (let mode = (if length seq > 3
                     then (case int_str py (seq_param seq) of Some m \<Rightarrow> m | None \<Rightarrow> 0)
                     else 0)
         in if mode = 0 then (s\<lparr>buffer := take (cursor_x s) (buffer s)\<rparr>, [])
            else if mode = 2 then (s\<lparr>buffer := [], cursor_x := 0\<rparr>, [])
            else (s, []))
      else if endswith seq 71 \<or> endswith seq 96 then
        (case int_str py (seq_param seq) of
           Some col \<Rightarrow> (s\<lparr>cursor_x := nat (max 0 (col - 1))\<rparr>, [])
         | None \<Rightarrow> (s, []))
      else if (endswith seq 65 \<or> endswith seq 66 \<or> endswith seq 72 \<or> endswith seq 102)
              \<and> in_alt_screen s then
        (s\<lparr>buffer := [], cursor_x := 0\<rparr>, flush_line s)
      else (s, []))"

definition put_char :: "python \<Rightarrow> vt100 \<Rightarrow> uchar \<Rightarrow> vt100 run" where
  \<comment> \<open>the last branch of the loop of \<open>_handle_text\<close>: pad with spaces up to the cursor,
      overwrite at the cursor, advance. The padding is built before anything is
      changed, so a failed allocation leaves buffer and cursor as they were.\<close>
  "put_char py s c =
     (if length (buffer s) \<le> cursor_x s then
        (if cursor_x s - length (buffer s) > max_gap py then (s, Inl AllocationError)
         else (s\<lparr>buffer :=
                   (buffer s @ replicate (cursor_x s - length (buffer s) + 1) SP)
                     [cursor_x s := c],
                 cursor_x := cursor_x s + 1\<rparr>, Inr []))
      else (s\<lparr>buffer := (buffer s)[cursor_x s := c], cursor_x := cursor_x s + 1\<rparr>, Inr []))"

definition handle_char :: "python \<Rightarrow> vt100 \<Rightarrow> uchar \<Rightarrow> vt100 run" where
  \<comment> \<open>one iteration of the loop of \<open>_handle_text\<close>, with the lines it appends\<close>
  "handle_char py s c =
     (if c = CR then
        (if in_alt_screen s then (s\<lparr>buffer := [], cursor_x := 0\<rparr>, Inr (flush_line s))
         else (s\<lparr>cursor_x := 0\<rparr>, Inr []))
      else if c = LF then (s\<lparr>buffer := [], cursor_x := 0\<rparr>, Inr (flush_line s))
      else if c = BS then (s\<lparr>cursor_x := nat (max 0 (int (cursor_x s) - 1))\<rparr>, Inr [])
      else if c = BEL then (s, Inr [])
      else put_char py s c)"

fun handle_text :: "python \<Rightarrow> vt100 \<Rightarrow> ustring \<Rightarrow> vt100 run" where
  "handle_text py s [] = (s, Inr [])"
| "handle_text py s (c # cs) = and_then (handle_char py s c) (\<lambda>s1. handle_text py s1 cs)"

definition handle_part :: "python \<Rightarrow> vt100 \<Rightarrow> ustring \<Rightarrow> vt100 run" where
  \<comment> \<open>the body of the loop of \<open>process\<close> for one non-empty part\<close>
  "handle_part py s part =
     (if startswith part [ESC, 91] then
        (case handle_csi py s part of (s', out) \<Rightarrow> (s', Inr out))
      else if startswith part [ESC, 93] then (s, Inr [])
      else if startswith part [ESC] then (s, Inr [])
      else handle_text py s part)"

fun handle_parts :: "python \<Rightarrow> vt100 \<Rightarrow> ustring list \<Rightarrow> vt100 run" where
  "handle_parts py s [] = (s, Inr [])"
| "handle_parts py s (p # ps) = and_then (handle_part py s p) (\<lambda>s1. handle_parts py s1 ps)"

definition process :: "python \<Rightarrow> vt100 \<Rightarrow> ustring \<Rightarrow> vt100 run" where
  \<comment> \<open>\<open>VT100Lite.process(chunk)\<close>: the state after the chunk and \<open>completed_lines\<close>,
      or the state at the raise\<close>
  "process py s chunk = handle_parts py s (split_parts [] chunk)"

definition flush :: "vt100 \<Rightarrow> vt100 \<times> ustring list" where
  \<comment> \<open>\<open>VT100Lite.flush()\<close>: the state it leaves and the list it returns\<close>
  "flush s = (s, if buffer s \<noteq> [] then [rstrip (buffer s)] else [])"

section \<open>The session: boundary buffer, line logger, final flush (\<open>main\<close>)\<close>

text \<open>
  The state of the parent process that the clean log depends on: the emulator \<open>vt\<close>, the
  pending text \<open>clean_log_buffer\<close>, and the clean log. An entry of \<open>clean_file\<close> is the
  line of one record \<^verbatim>\<open>[timestamp] line\<close>; the wall-clock prefix is not modelled.
  A read enters the model as its decoded text, \<open>o.decode('utf-8', errors='replace')\<close>,
  which is empty exactly when the read is.
  Writes to the log files are taken to succeed.
\<close>

record session =
  vt :: vt100
  clean_log_buffer :: ustring
  clean_file :: "ustring list"

definition session_init :: session where
  "session_init = \<lparr>vt = vt_init, clean_log_buffer = [], clean_file = []\<rparr>"

definition hold_back :: "ustring \<Rightarrow> ustring \<times> ustring" where
  \<comment> \<open>step 2 of the logging logic, on \<open>clean_log_buffer\<close> after \<open>+= text\<close>: the pair of
      \<open>to_process\<close> and the new \<open>clean_log_buffer\<close>\<close>
  "hold_back b =
     (case rfind ESC b of
        None \<Rightarrow> (b, [])
      | Some last_esc \<Rightarrow>
          if length b - last_esc > 256 then (b, [])
          else (take last_esc b, drop last_esc b))"

definition log_line :: "vt100 \<times> ustring list \<Rightarrow> ustring \<Rightarrow> vt100 \<times> ustring list" where
  \<comment> \<open>step 4 for one line: skip a repeat of \<open>last_logged_line\<close>, else remember and write\<close>
  "log_line vf line =
     (if Some line = last_logged_line (fst vf) then vf
      else ((fst vf)\<lparr>last_logged_line := Some line\<rparr>, snd vf @ [line]))"

definition log_lines :: "vt100 \<times> ustring list \<Rightarrow> ustring list \<Rightarrow> vt100 \<times> ustring list" where
  "log_lines vf lines = foldl log_line vf lines"

definition consume :: "python \<Rightarrow> session \<Rightarrow> ustring \<Rightarrow> session run" where
  \<comment> \<open>steps 3 and 4, under \<open>if to_process\<close>; the lines are what \<open>vt.process\<close> returned.
      When \<open>vt.process\<close> raises, nothing of the chunk is written.\<close>
  "consume py ss to_process =
     (if to_process \<noteq> [] then
        (case process py (vt ss) to_process of
           (v1, Inl e) \<Rightarrow> (ss\<lparr>vt := v1\<rparr>, Inl e)
         | (v1, Inr lines) \<Rightarrow>
             (let (v2, f2) = log_lines (v1, clean_file ss) lines
              in (ss\<lparr>vt := v2, clean_file := f2\<rparr>, Inr lines)))
      else (ss, Inr []))"

definition feed :: "python \<Rightarrow> session \<Rightarrow> ustring \<Rightarrow> session run" where
  \<comment> \<open>the logging logic of one iteration of the read loop, for the decoded \<open>text\<close> of a
      read from the pseudo-terminal\<close>
  "feed py ss text =
     (let (to_process, rest) = hold_back (clean_log_buffer ss @ text)
      in consume py (ss\<lparr>clean_log_buffer := rest\<rparr>) to_process)"

fun main_loop :: "python \<Rightarrow> session \<Rightarrow> ustring list \<Rightarrow> session run" where
  \<comment> \<open>the read loop over the successive decoded reads from the pseudo-terminal, with all
      completed lines; an empty read ends the loop (\<open>if not o: break\<close>), and so do the
      end of the list (end of the terminal's input, or an \<open>OSError\<close>) and an exception
      out of \<open>vt.process\<close>\<close>
  "main_loop py ss [] = (ss, Inr [])"
| "main_loop py ss (text # texts) =
     (if text = [] then (ss, Inr [])
      else and_then (feed py ss text) (\<lambda>s1. main_loop py s1 texts))"

definition finish :: "python \<Rightarrow> session \<Rightarrow> session run" where
  \<comment> \<open>the \<open>finally\<close> block: \<open>trailing_lines = vt.flush()\<close>, plus
      \<open>vt.process(clean_log_buffer)\<close> when text is pending, then every line of
      \<open>trailing_lines + vt.flush()\<close> is written, with no comparison. When
      \<open>vt.process\<close> raises here, nothing is written.\<close>
  "finish py ss =
     (let (v1, t1) = flush (vt ss)
      in case (if clean_log_buffer ss \<noteq> [] then process py v1 (clean_log_buffer ss)
               else (v1, Inr [])) of
           (v2, Inl e) \<Rightarrow> (ss\<lparr>vt := v2\<rparr>, Inl e)
         | (v2, Inr t2) \<Rightarrow>
             (let (v3, t3) = flush v2; written = t1 @ t2 @ t3
              in (ss\<lparr>vt := v3, clean_file := clean_file ss @ written\<rparr>, Inr written)))"

definition session_from :: "python \<Rightarrow> session \<Rightarrow> ustring list \<Rightarrow> session run" where
  \<comment> \<open>the read loop and the \<open>finally\<close> block, which runs however the loop ended: the final
      state, and every completed line the emulator produced if nothing raised\<close>
  "session_from py ss texts =
     (case main_loop py ss texts of
        (s1, r1) \<Rightarrow>
          (case finish py s1 of
             (s2, r2) \<Rightarrow>
               (s2, case r1 of
                      Inl e \<Rightarrow> Inl e
                    | Inr l1 \<Rightarrow> (case r2 of Inl e \<Rightarrow> Inl e | Inr l2 \<Rightarrow> Inr (l1 @ l2)))))"

definition run_session :: "python \<Rightarrow> ustring list \<Rightarrow> session run" where
  \<comment> \<open>a whole session\<close>
  "run_session py texts = session_from py session_init texts"

section \<open>Notions of the specification\<close>

definition last_esc_at :: "ustring \<Rightarrow> nat \<Rightarrow> bool" where
  \<comment> \<open>the specification's \<open>k\<close>: the index of the last escape character of \<open>b\<close>\<close>
  "last_esc_at b k \<longleftrightarrow> k < length b \<and> b ! k = ESC \<and> ESC \<notin> set (drop (Suc k) b)"

definition plain_char :: "uchar \<Rightarrow> bool" where
  \<comment> \<open>a plain text character: no escape, carriage return, line feed, backspace or bell\<close>
  "plain_char c \<longleftrightarrow> c \<noteq> ESC \<and> c \<noteq> CR \<and> c \<noteq> LF \<and> c \<noteq> BS \<and> c \<noteq> BEL"

definition complete_escapes :: "ustring \<Rightarrow> bool" where
  \<comment> \<open>every escape character of \<open>s\<close> begins a sequence the pattern matches there (CSI, OSC
      or two-character), and that sequence holds no further escape character\<close>
  "complete_escapes s \<longleftrightarrow>
     list_all
       (\<lambda>p. s ! p = ESC \<longrightarrow>
          (case match_at (drop p s) of
             Some n \<Rightarrow> ESC \<notin> set (take (n - 1) (drop (Suc p) s))
           | None \<Rightarrow> False))
       [0..<length s]"

section \<open>Auxiliary notions of the proofs\<close>

definition keep_last :: "ustring option \<Rightarrow> vt100 \<times> 'a \<Rightarrow> vt100 \<times> 'a" where
  "keep_last z r = ((fst r)\<lparr>last_logged_line := z\<rparr>, snd r)"

definition dedup_step ::
  "ustring option \<times> ustring list \<Rightarrow> ustring \<Rightarrow> ustring option \<times> ustring list" where
  \<comment> \<open>\<open>log_line\<close> on the pair of \<open>last_logged_line\<close> and the clean log\<close>
  "dedup_step lf line = (if Some line = fst lf then lf else (Some line, snd lf @ [line]))"

definition logged :: "session \<Rightarrow> vt100 run \<Rightarrow> session run" where
  \<comment> \<open>the session after a result of \<open>process\<close> went through the logger\<close>
  "logged ss r =
     (case snd r of
        Inl e \<Rightarrow> (ss\<lparr>vt := fst r\<rparr>, Inl e)
      | Inr lines \<Rightarrow>
          (let lf = foldl dedup_step (last_logged_line (vt ss), clean_file ss) lines
           in (ss\<lparr>vt := (fst r)\<lparr>last_logged_line := fst lf\<rparr>, clean_file := snd lf\<rparr>,
               Inr lines)))"

section \<open>Basic facts\<close>

lemma rfind_None_iff: "rfind c s = None \<longleftrightarrow> c \<notin> set s"
  by (induction s) (auto split: option.splits)

lemma rfind_Some_iff:
  "rfind c s = Some k \<longleftrightarrow> k < length s \<and> s ! k = c \<and> c \<notin> set (drop (Suc k) s)"
proof (induction s arbitrary: k)
  case Nil
  then show ?case by simp
next
  case (Cons x xs)
  show ?case
  proof (cases "rfind c xs")
    case None
    then have "c \<notin> set xs" by (simp add: rfind_None_iff)
    then show ?thesis using None
      by (cases k) (auto simp: in_set_conv_nth dest: in_set_dropD)
  next
    case (Some j)
    then have j: "j < length xs" "xs ! j = c" "c \<notin> set (drop (Suc j) xs)"
      using Cons.IH by auto
    show ?thesis
    proof (cases k)
      case 0
      then show ?thesis using Some j by (auto simp: in_set_conv_nth)
    next
      case (Suc k')
      then show ?thesis using Some Cons.IH [of k'] by auto
    qed
  qed
qed

lemma split_parts_single_csi:
  "split_parts [] (ESC # u ''[?1049h'') = [ESC # u ''[?1049h'']"
  "split_parts [] (ESC # u ''[?47h'') = [ESC # u ''[?47h'']"
  "split_parts [] (ESC # u ''[?1049l'') = [ESC # u ''[?1049l'']"
  "split_parts [] (ESC # u ''[?47l'') = [ESC # u ''[?47l'']"
  by code_simp+

subsection \<open>Sequencing\<close>

lemma and_then_unit [simp]:
  "and_then (s, Inr []) f = f s" "and_then r (\<lambda>s. (s, Inr [])) = r"
  by (auto simp: and_then_def split: prod.splits sum.splits)

lemma and_then_raise [simp]: "and_then (s, Inl e) f = (s, Inl e)"
  by (simp add: and_then_def)

lemma and_then_done:
  "and_then (s, Inr l) f = (fst (f s), map_sum id (\<lambda>l'. l @ l') (snd (f s)))"
  by (simp add: and_then_def split: prod.splits sum.splits)

lemma and_then_assoc: "and_then (and_then r f) g = and_then r (\<lambda>s. and_then (f s) g)"
  by (auto simp: and_then_def split: prod.splits sum.splits)

lemma and_then_completes:
  "completes (and_then r f) \<longleftrightarrow> completes r \<and> completes (f (fst r))"
  by (auto simp: and_then_def completes_def split: prod.splits sum.splits)

lemma completesE: "completes r \<Longrightarrow> \<exists>s l. r = (s, Inr l)"
  by (cases r; cases "snd r") (auto simp: completes_def)

lemma handle_text_append:
  "handle_text py s (x @ y) = and_then (handle_text py s x) (\<lambda>s1. handle_text py s1 y)"
proof (induction x arbitrary: s)
  case Nil
  show ?case by simp
next
  case (Cons c cs)
  show ?case
    unfolding append_Cons handle_text.simps Cons.IH and_then_assoc ..
qed

lemma handle_parts_append:
  "handle_parts py s (ps @ qs) = and_then (handle_parts py s ps) (\<lambda>s1. handle_parts py s1 qs)"
proof (induction ps arbitrary: s)
  case Nil
  show ?case by simp
next
  case (Cons p ps)
  show ?case
    unfolding append_Cons handle_parts.simps Cons.IH and_then_assoc ..
qed

lemma match_at_head: "match_at s = Some n \<Longrightarrow> \<exists>r. s = ESC # r"
  by (auto simp: match_at_def match_csi_def match_osc_def match_two_def
      split: option.splits list.splits if_splits)

lemma match_at_no_esc: "s = [] \<or> hd s \<noteq> ESC \<Longrightarrow> match_at s = None"
  using match_at_head [of s] by (cases "match_at s") auto

lemma split_parts_no_esc: "ESC \<notin> set s \<Longrightarrow> split_parts acc s = text_part (acc @ s)"
proof (induction s arbitrary: acc)
  case Nil
  show ?case by simp
next
  case (Cons c cs)
  then have "match_at (c # cs) = None" by (intro match_at_no_esc) simp
  with Cons show ?case by simp
qed

lemma handle_parts_text:
  "t = [] \<or> hd t \<noteq> ESC \<Longrightarrow> handle_parts py s (text_part t) = handle_text py s t"
  by (cases t) (auto simp: text_part_def handle_part_def startswith_def)

lemma handle_text_plain:
  "\<forall>c\<in>set t. plain_char c \<Longrightarrow> cursor_x s = length (buffer s) \<Longrightarrow>
   handle_text py s t =
     (s\<lparr>buffer := buffer s @ t, cursor_x := length (buffer s) + length t\<rparr>, Inr [])"
proof (induction t arbitrary: s)
  case Nil
  then show ?case by simp
next
  case (Cons c cs)
  from Cons.prems have c: "plain_char c" by simp
  let ?s1 = "s\<lparr>buffer := buffer s @ [c], cursor_x := length (buffer s) + 1\<rparr>"
  from c Cons.prems(2) have 1: "handle_char py s c = (?s1, Inr [])"
    by (simp add: handle_char_def plain_char_def put_char_def)
  have "handle_text py ?s1 cs =
      (?s1\<lparr>buffer := buffer ?s1 @ cs, cursor_x := length (buffer ?s1) + length cs\<rparr>, Inr [])"
    using Cons.prems by (intro Cons.IH) simp_all
  with 1 show ?case by simp
qed

lemma handle_text_segment:
  assumes "\<forall>c\<in>set seg. plain_char c" "buffer s = []" "cursor_x s = 0"
  shows "handle_text py s (seg @ [LF]) =
           (s, Inr (if rstrip seg \<noteq> [] then [rstrip seg] else []))"
proof -
  let ?s1 = "s\<lparr>buffer := seg, cursor_x := length seg\<rparr>"
  from assms have a: "handle_text py s seg = (?s1, Inr [])"
    using handle_text_plain [of seg s py] by simp
  have b: "handle_char py ?s1 LF =
      (s\<lparr>buffer := [], cursor_x := 0\<rparr>, Inr (if rstrip seg \<noteq> [] then [rstrip seg] else []))"
    by (simp add: handle_char_def flush_line_def Let_def)
  have c: "s\<lparr>buffer := [], cursor_x := 0\<rparr> = s"
    using assms(2,3) by (cases s) simp
  have "handle_text py s (seg @ [LF]) =
      and_then (handle_text py s seg) (\<lambda>s1. handle_text py s1 [LF])"
    by (rule handle_text_append)
  also have "\<dots> = handle_text py ?s1 [LF]" unfolding a by simp
  also have "\<dots> = handle_char py ?s1 LF" by simp
  finally show ?thesis unfolding b c .
qed

lemma handle_text_segments:
  assumes "\<forall>seg\<in>set segs. \<forall>c\<in>set seg. plain_char c" "buffer s = []" "cursor_x s = 0"
  shows "handle_text py s (concat (map (\<lambda>seg. seg @ [LF]) segs)) =
           (s, Inr (filter (\<lambda>l. l \<noteq> []) (map rstrip segs)))"
  using assms
proof (induction segs)
  case Nil
  then show ?case by simp
next
  case (Cons seg segs)
  then have 1: "handle_text py s (seg @ [LF]) =
      (s, Inr (if rstrip seg \<noteq> [] then [rstrip seg] else []))"
    by (intro handle_text_segment) simp_all
  have 2: "handle_text py s (concat (map (\<lambda>seg. seg @ [LF]) segs)) =
           (s, Inr (filter (\<lambda>l. l \<noteq> []) (map rstrip segs)))"
    using Cons.prems by (intro Cons.IH) simp_all
  have e: "concat (map (\<lambda>seg. seg @ [LF]) (seg # segs)) =
      (seg @ [LF]) @ concat (map (\<lambda>seg. seg @ [LF]) segs)"
    by simp
  have "handle_text py s (concat (map (\<lambda>seg. seg @ [LF]) (seg # segs))) =
     and_then (handle_text py s (seg @ [LF]))
       (\<lambda>s1. handle_text py s1 (concat (map (\<lambda>seg. seg @ [LF]) segs)))"
    unfolding e by (rule handle_text_append)
  then show ?case unfolding 1 by (simp add: and_then_def 2)
qed

lemma split_parts_no_match:
  "\<forall>n<length s. match_at (drop n s) = None \<Longrightarrow> split_parts acc s = text_part (acc @ s)"
proof (induction s arbitrary: acc)
  case Nil
  show ?case by simp
next
  case (Cons c cs)
  from Cons.prems have 0: "match_at (c # cs) = None" by (metis drop0 length_greater_0_conv list.discI)
  have "\<forall>n<length cs. match_at (drop n cs) = None"
  proof (intro allI impI)
    fix n assume "n < length cs"
    then have "Suc n < length (c # cs)" by simp
    with Cons.prems have "match_at (drop (Suc n) (c # cs)) = None" by blast
    then show "match_at (drop n cs) = None" by simp
  qed
  then have "split_parts (acc @ [c]) cs = text_part ((acc @ [c]) @ cs)" by (rule Cons.IH)
  with 0 show ?case by simp
qed

subsection \<open>A match is decided by the characters it covers\<close>

lemma osc_end_append: "osc_end c = Some m \<Longrightarrow> osc_end (c @ y) = Some m"
proof (induction c arbitrary: m)
  case Nil
  then show ?case by simp
next
  case (Cons a c)
  show ?case
  proof (cases "a = BEL \<or> (a = ESC \<and> (case c of d # _ \<Rightarrow> d = 92 | [] \<Rightarrow> False))")
    case True
    with Cons.prems show ?thesis by (cases c) (auto split: if_splits)
  next
    case False
    with Cons.prems obtain m' where m': "osc_end c = Some m'" "m = Suc m'" "a \<noteq> LF"
      by (auto split: if_splits)
    from m'(1) obtain d c' where c: "c = d # c'" by (cases c) auto
    then have t: "(case c @ y of d # _ \<Rightarrow> d = 92 | [] \<Rightarrow> False) =
        (case c of d # _ \<Rightarrow> d = 92 | [] \<Rightarrow> False)"
      by simp
    from Cons.IH [OF m'(1)] have "osc_end (c @ y) = Some m'" .
    with False m' t show ?thesis by auto
  qed
qed

lemma osc_end_take: "osc_end c = Some m \<Longrightarrow> osc_end (take m c) = Some m"
proof (induction c arbitrary: m)
  case Nil
  then show ?case by simp
next
  case (Cons a c)
  show ?case
  proof (cases "a = BEL \<or> (a = ESC \<and> (case c of d # _ \<Rightarrow> d = 92 | [] \<Rightarrow> False))")
    case True
    with Cons.prems show ?thesis by (auto split: if_splits list.splits)
  next
    case False
    with Cons.prems obtain m' where m': "osc_end c = Some m'" "m = Suc m'" "a \<noteq> LF"
      by (auto split: if_splits)
    from Cons.IH [OF m'(1)] have ih: "osc_end (take m' c) = Some m'" .
    from osc_end_bounds [OF m'(1)] have pos: "0 < m'" by simp
    have "a = ESC \<Longrightarrow> (case take m' c of d # _ \<Rightarrow> d = 92 | [] \<Rightarrow> False) \<Longrightarrow> 
          (case c of d # _ \<Rightarrow> d = 92 | [] \<Rightarrow> False)"
      using pos by (cases c; cases m') auto
    with False m' ih show ?thesis by (auto split: if_splits)
  qed
qed

lemma takeWhile_run:
  "dropWhile P r = f # t \<Longrightarrow> takeWhile P (takeWhile P r @ f # y) = takeWhile P r
     \<and> dropWhile P (takeWhile P r @ f # y) = f # y"
proof -
  assume a: "dropWhile P r = f # t"
  then have "\<not> P f" by (metis hd_dropWhile list.sel(1) list.discI)
  moreover have "\<forall>x\<in>set (takeWhile P r). P x" by (auto dest: set_takeWhileD)
  ultimately show ?thesis by (simp add: takeWhile_append2 dropWhile_append2)
qed

lemma match_csi_append: "match_csi x = Some n \<Longrightarrow> match_csi (x @ y) = Some n"
proof -
  assume a: "match_csi x = Some n"
  then obtain r where x: "x = ESC # 91 # r"
    by (auto simp: match_csi_def split: list.splits if_splits)
  from a x obtain f t where d: "dropWhile is_param r = f # t" "is_final f"
      "n = length (takeWhile is_param r) + 3"
    by (auto simp: match_csi_def split: list.splits if_splits)
  have r: "r = takeWhile is_param r @ f # t" using d(1) by (metis takeWhile_dropWhile_id)
  have e: "r @ y = takeWhile is_param r @ f # (t @ y)" using r by (metis append.assoc append_Cons)
  have "takeWhile is_param (r @ y) = takeWhile is_param r"
    "dropWhile is_param (r @ y) = f # (t @ y)"
    using takeWhile_run [OF d(1), of "t @ y"] by (simp_all only: e)
  with x d show ?thesis by (simp add: match_csi_def)
qed

lemma match_csi_take: "match_csi x = Some n \<Longrightarrow> match_csi (take n x) = Some n"
proof -
  assume a: "match_csi x = Some n"
  then obtain r where x: "x = ESC # 91 # r"
    by (auto simp: match_csi_def split: list.splits if_splits)
  from a x obtain f t where d: "dropWhile is_param r = f # t" "is_final f"
      "n = length (takeWhile is_param r) + 3"
    by (auto simp: match_csi_def split: list.splits if_splits)
  have r: "r = takeWhile is_param r @ f # t" using d(1) by (metis takeWhile_dropWhile_id)
  have "take n x = ESC # 91 # take (length (takeWhile is_param r) + 1) r"
    using x d(3) by (simp add: numeral_3_eq_3)
  also have "take (length (takeWhile is_param r) + 1) r = takeWhile is_param r @ [f]"
    by (subst r) simp
  finally have t: "take n x = ESC # 91 # (takeWhile is_param r @ f # [])" by simp
  from takeWhile_run [OF d(1), of "[]"] d show ?thesis
    unfolding t by (simp add: match_csi_def)
qed

lemma match_osc_append: "match_osc x = Some n \<Longrightarrow> match_osc (x @ y) = Some n"
proof -
  assume a: "match_osc x = Some n"
  then obtain r where x: "x = ESC # 93 # r"
    by (auto simp: match_osc_def split: list.splits if_splits)
  from a x obtain content m where d: "dropWhile is_digit r = 59 # content"
      "osc_end content = Some m" "n = length (takeWhile is_digit r) + 3 + m"
    by (auto simp: match_osc_def split: list.splits if_splits)
  have r: "r = takeWhile is_digit r @ 59 # content"
    using d(1) by (metis takeWhile_dropWhile_id)
  have e: "r @ y = takeWhile is_digit r @ 59 # (content @ y)"
    using r by (metis append.assoc append_Cons)
  have "takeWhile is_digit (r @ y) = takeWhile is_digit r"
    "dropWhile is_digit (r @ y) = 59 # (content @ y)"
    using takeWhile_run [OF d(1), of "content @ y"] by (simp_all only: e)
  with x d osc_end_append [OF d(2), of y] show ?thesis by (simp add: match_osc_def)
qed

lemma match_osc_take: "match_osc x = Some n \<Longrightarrow> match_osc (take n x) = Some n"
proof -
  assume a: "match_osc x = Some n"
  then obtain r where x: "x = ESC # 93 # r"
    by (auto simp: match_osc_def split: list.splits if_splits)
  from a x obtain content m where d: "dropWhile is_digit r = 59 # content"
      "osc_end content = Some m" "n = length (takeWhile is_digit r) + 3 + m"
    by (auto simp: match_osc_def split: list.splits if_splits)
  have r: "r = takeWhile is_digit r @ 59 # content"
    using d(1) by (metis takeWhile_dropWhile_id)
  have "take n x = ESC # 93 # take (length (takeWhile is_digit r) + 1 + m) r"
    using x d(3) by (simp add: numeral_3_eq_3)
  also have "take (length (takeWhile is_digit r) + 1 + m) r =
      takeWhile is_digit r @ 59 # take m content"
    by (subst r) simp
  finally have t: "take n x = ESC # 93 # (takeWhile is_digit r @ 59 # take m content)" .
  from takeWhile_run [OF d(1), of "take m content"] d osc_end_take [OF d(2)]
  show ?thesis unfolding t by (simp add: match_osc_def)
qed

lemma match_two_append: "match_two x = Some n \<Longrightarrow> match_two (x @ y) = Some n"
  by (auto simp: match_two_def split: list.splits if_splits)

lemma match_two_take: "match_two x = Some n \<Longrightarrow> match_two (take n x) = Some n"
  by (auto simp: match_two_def split: list.splits if_splits)

lemma match_csi_shape: "match_csi s = Some n \<Longrightarrow> \<exists>r. s = ESC # 91 # r"
  by (auto simp: match_csi_def split: list.splits if_splits)

lemma match_osc_shape: "match_osc s = Some n \<Longrightarrow> \<exists>r. s = ESC # 93 # r"
  by (auto simp: match_osc_def split: list.splits if_splits)

lemma match_two_shape:
  "match_two s = Some n \<Longrightarrow> \<exists>c r. s = ESC # c # r \<and> c \<noteq> 91 \<and> c \<noteq> 93"
  by (auto simp: match_two_def two_char_finals_def split: list.splits if_splits)

lemma match_at_iff:
  "match_at s = Some n \<longleftrightarrow> match_csi s = Some n \<or> match_osc s = Some n \<or> match_two s = Some n"
proof
  assume "match_at s = Some n"
  then show "match_csi s = Some n \<or> match_osc s = Some n \<or> match_two s = Some n"
    by (auto simp: match_at_def split: option.splits)
next
  assume a: "match_csi s = Some n \<or> match_osc s = Some n \<or> match_two s = Some n"
  then consider "match_csi s = Some n" | "match_osc s = Some n" | "match_two s = Some n"
    by blast
  then show "match_at s = Some n"
  proof cases
    case 1
    then show ?thesis by (simp add: match_at_def)
  next
    case 2
    from match_osc_shape [OF 2] have "match_csi s = None"
      by (auto simp: match_csi_def)
    with 2 show ?thesis by (simp add: match_at_def)
  next
    case 3
    from match_two_shape [OF 3] have "match_csi s = None" "match_osc s = None"
      by (auto simp: match_csi_def match_osc_def)
    with 3 show ?thesis by (simp add: match_at_def)
  qed
qed

lemma match_at_append: "match_at x = Some n \<Longrightarrow> match_at (x @ y) = Some n"
  unfolding match_at_iff
  by (blast intro: match_csi_append match_osc_append match_two_append)

lemma match_at_take: "match_at x = Some n \<Longrightarrow> match_at (take n x) = Some n"
  unfolding match_at_iff
  by (blast intro: match_csi_take match_osc_take match_two_take)

lemma match_at_prefix:
  assumes "match_at (x @ y) = Some n" "n \<le> length x"
  shows "match_at x = Some n"
proof -
  from match_at_take [OF assms(1)] assms(2) have "match_at (take n x) = Some n" by simp
  from match_at_append [OF this, of "drop n x"] show ?thesis by simp
qed

lemma complete_escapes_iff:
  "complete_escapes s \<longleftrightarrow>
     (\<forall>p<length s. s ! p = ESC \<longrightarrow>
        (case match_at (drop p s) of
           Some n \<Rightarrow> ESC \<notin> set (take (n - 1) (drop (Suc p) s))
         | None \<Rightarrow> False))"
  by (auto simp: complete_escapes_def list_all_iff)

lemma complete_escapes_suffix: "complete_escapes (x @ y) \<Longrightarrow> complete_escapes y"
  unfolding complete_escapes_iff
proof (intro allI impI)
  fix p
  assume a: "\<forall>p<length (x @ y). (x @ y) ! p = ESC \<longrightarrow>
        (case match_at (drop p (x @ y)) of
           Some n \<Rightarrow> ESC \<notin> set (take (n - 1) (drop (Suc p) (x @ y)))
         | None \<Rightarrow> False)"
    and p: "p < length y" "y ! p = ESC"
  from p have "length x + p < length (x @ y)" "(x @ y) ! (length x + p) = ESC"
    by (simp_all add: nth_append)
  with a have "case match_at (drop (length x + p) (x @ y)) of
           Some n \<Rightarrow> ESC \<notin> set (take (n - 1) (drop (Suc (length x + p)) (x @ y)))
         | None \<Rightarrow> False" by blast
  then show "case match_at (drop p y) of
           Some n \<Rightarrow> ESC \<notin> set (take (n - 1) (drop (Suc p) y))
         | None \<Rightarrow> False" by (simp split: option.splits)
qed

lemma complete_escapes_head:
  assumes "complete_escapes (c # cs)"
  shows "c = ESC \<Longrightarrow> \<exists>n. match_at (c # cs) = Some n \<and> ESC \<notin> set (take (n - 1) cs)"
proof -
  assume c: "c = ESC"
  from assms have "0 < length (c # cs) \<longrightarrow> (c # cs) ! 0 = ESC \<longrightarrow>
      (case match_at (drop 0 (c # cs)) of
         Some n \<Rightarrow> ESC \<notin> set (take (n - 1) (drop (Suc 0) (c # cs)))
       | None \<Rightarrow> False)"
    unfolding complete_escapes_iff by blast
  with c show ?thesis by (simp split: option.splits)
qed

lemma no_straddle:
  assumes m: "match_at (x @ y) = Some n" and x: "x \<noteq> []"
    and e: "ESC \<notin> set (take (n - 1) (tl (x @ y)))" and y: "y = [] \<or> hd y = ESC"
  shows "n \<le> length x"
proof (cases "y = []")
  case True
  with match_at_bounds [OF m] show ?thesis by simp
next
  case False
  with y have hy: "hd y = ESC" by simp
  show ?thesis
  proof (rule ccontr)
    assume "\<not> n \<le> length x"
    then have n: "length x < n" by simp
    from x False have "tl (x @ y) ! (length x - 1) = hd y"
      by (cases x) (simp_all add: nth_append hd_conv_nth)
    moreover from x False n have "length x - 1 < length (take (n - 1) (tl (x @ y)))"
      by (cases x; cases y) auto
    ultimately have "ESC \<in> set (take (n - 1) (tl (x @ y)))"
      using hy by (metis nth_mem nth_take length_take min_less_iff_conj)
    with e show False by simp
  qed
qed

lemma complete_escapes_prefix:
  assumes c: "complete_escapes (x @ y)" and y: "y = [] \<or> hd y = ESC"
  shows "complete_escapes x"
  unfolding complete_escapes_iff
proof (intro allI impI)
  fix p assume p: "p < length x" "x ! p = ESC"
  from p have dx: "drop p x \<noteq> []" by simp
  from complete_escapes_suffix [of "take p x" "drop p x @ y"] c
  have c': "complete_escapes (drop p x @ y)" by (metis append.assoc append_take_drop_id)
  from p dx have hd: "hd (drop p x) = ESC" by (simp add: hd_drop_conv_nth)
  from dx obtain d ds where d: "drop p x = d # ds" by (cases "drop p x") auto
  with hd have dE: "d = ESC" by simp
  from complete_escapes_head [of d "ds @ y"] c' d dE
  obtain n where n: "match_at (drop p x @ y) = Some n" "ESC \<notin> set (take (n - 1) (ds @ y))"
    by auto
  from n(2) d have "ESC \<notin> set (take (n - 1) (tl (drop p x @ y)))" by simp
  from no_straddle [OF n(1) dx this y] have le: "n \<le> length (drop p x)" .
  from match_at_prefix [OF n(1) le] have m: "match_at (drop p x) = Some n" .
  from le d have "take (n - 1) (ds @ y) = take (n - 1) ds" by simp
  with n(2) have "ESC \<notin> set (take (n - 1) ds)" by simp
  moreover from d have "drop (Suc p) x = ds" by (metis drop_Suc tl_drop list.sel(3))
  ultimately show "case match_at (drop p x) of
           Some n \<Rightarrow> ESC \<notin> set (take (n - 1) (drop (Suc p) x))
         | None \<Rightarrow> False" using m by simp
qed

subsection \<open>Cutting a chunk between two parts\<close>

lemma text_run_grows:
  assumes "acc = [] \<or> hd acc \<noteq> ESC" "t \<noteq> []" "hd t \<noteq> ESC"
  shows "handle_parts py s (split_parts (acc @ t) z) =
     and_then (handle_text py s acc) (\<lambda>s1. handle_parts py s1 (split_parts t z))"
  using assms(2,3)
proof (induction z arbitrary: t)
  case Nil
  from Nil assms(1) have h: "acc @ t = [] \<or> hd (acc @ t) \<noteq> ESC" by (cases acc) auto
  from Nil have h': "t = [] \<or> hd t \<noteq> ESC" by simp
  show ?case
    unfolding split_parts.simps handle_parts_text [OF h] handle_parts_text [OF h']
    by (rule handle_text_append)
next
  case (Cons c cs)
  from Cons.prems assms(1) have h: "acc @ t = [] \<or> hd (acc @ t) \<noteq> ESC" by (cases acc) auto
  from Cons.prems have h': "t = [] \<or> hd t \<noteq> ESC" by simp
  show ?case
  proof (cases "match_at (c # cs)")
    case (Some n)
    have l: "split_parts (acc @ t) (c # cs) =
        text_part (acc @ t) @ take n (c # cs) # split_parts [] (drop n (c # cs))"
      using Some by simp
    have r: "split_parts t (c # cs) =
        text_part t @ take n (c # cs) # split_parts [] (drop n (c # cs))"
      using Some by simp
    show ?thesis
      unfolding l r handle_parts_append handle_parts_text [OF h] handle_parts_text [OF h']
        handle_text_append and_then_assoc ..
  next
    case None
    from Cons.prems have t': "t @ [c] \<noteq> []" "hd (t @ [c]) \<noteq> ESC" by (cases t; simp)+
    have "split_parts (acc @ t) (c # cs) = split_parts (acc @ (t @ [c])) cs"
      using None by simp
    moreover have "split_parts t (c # cs) = split_parts (t @ [c]) cs" using None by simp
    ultimately show ?thesis using Cons.IH [OF t'] by simp
  qed
qed

lemma text_accumulate:
  assumes "acc = [] \<or> hd acc \<noteq> ESC" "y = [] \<or> hd y \<noteq> ESC \<or> match_at y \<noteq> None"
  shows "handle_parts py s (split_parts acc y) =
     and_then (handle_text py s acc) (\<lambda>s1. handle_parts py s1 (split_parts [] y))"
proof (cases y)
  case Nil
  with handle_parts_text [OF assms(1)] show ?thesis by (simp add: text_part_def)
next
  case (Cons c cs)
  show ?thesis
  proof (cases "match_at y")
    case (Some n)
    then have l: "split_parts acc y = text_part acc @ split_parts [] y"
      unfolding Cons by (simp add: text_part_def)
    show ?thesis unfolding l handle_parts_append handle_parts_text [OF assms(1)] ..
  next
    case None
    with assms(2) Cons have c: "c \<noteq> ESC" by auto
    then have t: "[c] \<noteq> []" "hd [c] \<noteq> ESC" by simp_all
    have "split_parts acc y = split_parts (acc @ [c]) cs" using None unfolding Cons by simp
    moreover have "split_parts [] y = split_parts [c] cs" using None unfolding Cons by simp
    ultimately show ?thesis using text_run_grows [OF assms(1) t] by simp
  qed
qed

lemma take_drop_within:
  "n \<le> length x \<Longrightarrow> take n (x @ y) = take n x \<and> drop n (x @ y) = drop n x @ y"
  by simp

lemma handle_parts_split:
  assumes "complete_escapes x" "y = [] \<or> hd y \<noteq> ESC \<or> match_at y \<noteq> None"
    "acc = [] \<or> hd acc \<noteq> ESC"
  shows "handle_parts py st (split_parts acc (x @ y)) =
     and_then (handle_parts py st (split_parts acc x))
       (\<lambda>s1. handle_parts py s1 (split_parts [] y))"
  using assms(1,3)
proof (induction acc x arbitrary: st rule: split_parts.induct)
  case (1 acc)
  from text_accumulate [OF "1.prems"(2) assms(2)] show ?case
    by (simp add: handle_parts_text [OF "1.prems"(2)])
next
  case (2 acc c cs)
  let ?x = "c # cs"
  from "2.prems"(1) have ce': "complete_escapes cs"
    using complete_escapes_suffix [of "[c]" cs] by simp
  show ?case
  proof (cases "c = ESC")
    case True
    with complete_escapes_head [OF "2.prems"(1)]
    obtain n where m: "match_at ?x = Some n" by blast
    from match_at_append [OF m, of y] have my: "match_at (?x @ y) = Some n" .
    from match_at_bounds [OF m] have le: "n \<le> length ?x" by simp
    have "complete_escapes (take n ?x @ drop n ?x)" using "2.prems"(1) by simp
    then have cd: "complete_escapes (drop n ?x)" by (rule complete_escapes_suffix)
    have ih: "handle_parts py s (split_parts [] (drop n ?x @ y)) =
       and_then (handle_parts py s (split_parts [] (drop n ?x)))
         (\<lambda>s1. handle_parts py s1 (split_parts [] y))" for s
      by (rule "2.IH"(2) [OF m cd]) simp
    have t: "take n (?x @ y) = take n ?x" "drop n (?x @ y) = drop n ?x @ y"
      using take_drop_within [OF le, of y] by blast+
    have l: "split_parts acc (?x @ y) =
        text_part acc @ take n ?x # split_parts [] (drop n ?x @ y)"
      using my t by simp
    have r: "split_parts acc ?x = text_part acc @ take n ?x # split_parts [] (drop n ?x)"
      using m by simp
    show ?thesis
      unfolding l r handle_parts_append handle_parts.simps ih and_then_assoc ..
  next
    case False
    then have m: "match_at ?x = None" by (intro match_at_no_esc) simp
    from False have my: "match_at (?x @ y) = None" by (intro match_at_no_esc) simp
    from False "2.prems"(2) have a: "acc @ [c] = [] \<or> hd (acc @ [c]) \<noteq> ESC"
      by (cases acc) auto
    have "split_parts acc (?x @ y) = split_parts (acc @ [c]) (cs @ y)" using my by simp
    moreover have "split_parts acc ?x = split_parts (acc @ [c]) cs" using m by simp
    ultimately show ?thesis using "2.IH"(1) [OF m ce' a] by simp
  qed
qed

lemma process_split:
  assumes "complete_escapes x" "y = [] \<or> hd y \<noteq> ESC \<or> match_at y \<noteq> None"
  shows "process py st (x @ y) = and_then (process py st x) (\<lambda>s1. process py s1 y)"
  unfolding process_def using handle_parts_split [OF assms, of "[]"] by simp

lemma split_parts_run:
  "\<forall>n<length r. match_at (drop n (r @ post)) = None \<Longrightarrow>
   split_parts acc (r @ post) = split_parts (acc @ r) post"
proof (induction r arbitrary: acc)
  case Nil
  show ?case by simp
next
  case (Cons c cs)
  from Cons.prems have 0: "match_at ((c # cs) @ post) = None"
    by (metis drop0 length_greater_0_conv list.discI)
  have "\<forall>n<length cs. match_at (drop n (cs @ post)) = None"
  proof (intro allI impI)
    fix n assume "n < length cs"
    then have "Suc n < length (c # cs)" by simp
    with Cons.prems have "match_at (drop (Suc n) ((c # cs) @ post)) = None" by blast
    then show "match_at (drop n (cs @ post)) = None" by simp
  qed
  then have "split_parts (acc @ [c]) (cs @ post) = split_parts ((acc @ [c]) @ cs) post"
    by (rule Cons.IH)
  with 0 show ?case by simp
qed

lemma process_run:
  assumes "r \<noteq> []" "hd r \<noteq> ESC" "\<forall>n<length r. match_at (drop n (r @ post)) = None"
    "post = [] \<or> match_at post \<noteq> None"
  shows "process py s (r @ post) = and_then (handle_text py s r) (\<lambda>s1. process py s1 post)"
proof -
  from assms(1,2) have h: "r = [] \<or> hd r \<noteq> ESC" by simp
  have p: "post = [] \<or> hd post \<noteq> ESC \<or> match_at post \<noteq> None" using assms(4) by blast
  have "split_parts [] (r @ post) = split_parts r post"
    using split_parts_run [OF assms(3), of "[]"] by simp
  then show ?thesis
    unfolding process_def using text_accumulate [OF h p] by simp
qed

subsection \<open>\<open>process\<close> leaves \<open>last_logged_line\<close> alone\<close>

lemma keep_last_and_then:
  assumes "\<And>s'. g (s'\<lparr>last_logged_line := z\<rparr>) = keep_last z (f s')"
  shows "and_then (keep_last z r) g = keep_last z (and_then r f)"
  by (simp add: assms keep_last_def and_then_def split: prod.splits sum.splits)

lemma handle_char_frame:
  "handle_char py (s\<lparr>last_logged_line := z\<rparr>) c = keep_last z (handle_char py s c)"
  by (simp add: handle_char_def keep_last_def put_char_def flush_line_def Let_def)

lemma handle_text_frame:
  "handle_text py (s\<lparr>last_logged_line := z\<rparr>) t = keep_last z (handle_text py s t)"
proof (induction t arbitrary: s)
  case Nil
  show ?case by (simp add: keep_last_def)
next
  case (Cons c cs)
  show ?case
    unfolding handle_text.simps handle_char_frame
    by (rule keep_last_and_then) (rule Cons.IH)
qed

lemma handle_csi_frame:
  "handle_csi py (s\<lparr>last_logged_line := z\<rparr>) seq = keep_last z (handle_csi py s seq)"
  by (simp add: handle_csi_def keep_last_def flush_line_def Let_def split: option.splits)

lemma handle_part_frame:
  "handle_part py (s\<lparr>last_logged_line := z\<rparr>) p = keep_last z (handle_part py s p)"
  unfolding handle_part_def handle_csi_frame handle_text_frame
  by (simp add: keep_last_def split: prod.splits)

lemma handle_parts_frame:
  "handle_parts py (s\<lparr>last_logged_line := z\<rparr>) ps = keep_last z (handle_parts py s ps)"
proof (induction ps arbitrary: s)
  case Nil
  show ?case by (simp add: keep_last_def)
next
  case (Cons p ps)
  show ?case
    unfolding handle_parts.simps handle_part_frame
    by (rule keep_last_and_then) (rule Cons.IH)
qed

lemma process_frame:
  "process py (s\<lparr>last_logged_line := z\<rparr>) t = keep_last z (process py s t)"
  unfolding process_def by (rule handle_parts_frame)

lemma process_last:
  "last_logged_line (fst (process py s t)) = last_logged_line s"
proof -
  have "process py (s\<lparr>last_logged_line := last_logged_line s\<rparr>) t =
      keep_last (last_logged_line s) (process py s t)" by (rule process_frame)
  then have "process py s t = keep_last (last_logged_line s) (process py s t)" by simp
  then have "fst (process py s t) = fst (keep_last (last_logged_line s) (process py s t))"
    by simp
  then have "last_logged_line (fst (process py s t)) =
      last_logged_line (fst (keep_last (last_logged_line s) (process py s t)))" by simp
  then show ?thesis by (simp add: keep_last_def)
qed

lemma log_lines_eq:
  "log_lines (v, f) ls =
     (v\<lparr>last_logged_line := fst (foldl dedup_step (last_logged_line v, f) ls)\<rparr>,
      snd (foldl dedup_step (last_logged_line v, f) ls))"
proof (induction ls arbitrary: v f)
  case Nil
  show ?case by (simp add: log_lines_def)
next
  case (Cons l ls)
  have "log_lines (v, f) (l # ls) = log_lines (log_line (v, f) l) ls"
    by (simp add: log_lines_def)
  also have "log_line (v, f) l =
      (v\<lparr>last_logged_line := fst (dedup_step (last_logged_line v, f) l)\<rparr>,
        snd (dedup_step (last_logged_line v, f) l))"
    by (simp add: log_line_def dedup_step_def)
  finally show ?case unfolding Cons.IH by simp
qed

lemma consume_eq: "consume py ss tp = logged ss (process py (vt ss) tp)"
proof (cases "tp = []")
  case True
  then show ?thesis by (simp add: consume_def logged_def process_def text_part_def)
next
  case False
  obtain v1 r1 where p: "process py (vt ss) tp = (v1, r1)" by (cases "process py (vt ss) tp")
  from process_last [of py "vt ss" tp] p have "last_logged_line v1 = last_logged_line (vt ss)"
    by simp
  with False p show ?thesis
    by (cases r1) (simp_all add: consume_def logged_def log_lines_eq Let_def)
qed

lemma consume_split:
  assumes "complete_escapes x" "y = [] \<or> hd y \<noteq> ESC \<or> match_at y \<noteq> None"
    and ok: "completes (process py (vt ss) (x @ y))"
  shows "consume py ss (x @ y) = and_then (consume py ss x) (\<lambda>s1. consume py s1 y)"
proof -
  have sp: "process py (vt ss) (x @ y) =
      and_then (process py (vt ss) x) (\<lambda>s1. process py s1 y)"
    by (rule process_split [OF assms(1,2)])
  with ok have "completes (process py (vt ss) x)"
    "completes (process py (fst (process py (vt ss) x)) y)"
    by (simp_all add: and_then_completes)
  then obtain v1 l1 v2 l2 where p1: "process py (vt ss) x = (v1, Inr l1)"
    and p2: "process py v1 y = (v2, Inr l2)"
    by (metis completesE fst_conv)
  from process_last [of py "vt ss" x] p1 have k1: "last_logged_line v1 = last_logged_line (vt ss)"
    by simp
  from process_last [of py v1 y] p2 have k2: "last_logged_line v2 = last_logged_line v1"
    by simp
  have whole: "process py (vt ss) (x @ y) = (v2, Inr (l1 @ l2))"
    unfolding sp p1 by (simp add: and_then_def p2)
  let ?lf1 = "foldl dedup_step (last_logged_line (vt ss), clean_file ss) l1"
  let ?s1 = "ss\<lparr>vt := v1\<lparr>last_logged_line := fst ?lf1\<rparr>, clean_file := snd ?lf1\<rparr>"
  have c1: "consume py ss x = (?s1, Inr l1)"
    unfolding consume_eq p1 by (simp add: logged_def Let_def)
  have "process py (vt ?s1) y = keep_last (fst ?lf1) (process py v1 y)"
    by (simp add: process_frame)
  then have p2': "process py (vt ?s1) y = (v2\<lparr>last_logged_line := fst ?lf1\<rparr>, Inr l2)"
    unfolding p2 by (simp add: keep_last_def)
  have c2: "consume py ?s1 y =
      (ss\<lparr>vt := v2\<lparr>last_logged_line := fst (foldl dedup_step ?lf1 l2)\<rparr>,
          clean_file := snd (foldl dedup_step ?lf1 l2)\<rparr>, Inr l2)"
    unfolding consume_eq p2' by (simp add: logged_def Let_def)
  have c: "consume py ss (x @ y) =
      (ss\<lparr>vt := v2\<lparr>last_logged_line := fst (foldl dedup_step ?lf1 l2)\<rparr>,
          clean_file := snd (foldl dedup_step ?lf1 l2)\<rparr>, Inr (l1 @ l2))"
    unfolding consume_eq whole by (simp add: logged_def Let_def)
  show ?thesis unfolding c c1 by (simp add: and_then_def c2)
qed

lemma consume_pending:
  "consume py (ss\<lparr>clean_log_buffer := r\<rparr>) tp =
     (fst (consume py ss tp)\<lparr>clean_log_buffer := r\<rparr>, snd (consume py ss tp))"
  by (simp add: consume_def split: prod.splits sum.splits)

subsection \<open>The boundary buffer over two reads\<close>

lemma rfind_append:
  "rfind c (x @ y) = (case rfind c y of Some k \<Rightarrow> Some (length x + k) | None \<Rightarrow> rfind c x)"
  by (induction x) (auto split: option.splits)

lemma hold_back_concat: "fst (hold_back b) @ snd (hold_back b) = b"
  by (simp add: hold_back_def split: option.splits)

lemma hold_back_pending: "snd (hold_back b) = [] \<or> hd (snd (hold_back b)) = ESC"
proof (cases "rfind ESC b")
  case None
  then show ?thesis by (simp add: hold_back_def)
next
  case (Some k)
  then have "k < length b" "b ! k = ESC" by (simp_all add: rfind_Some_iff)
  then have "hd (drop k b) = ESC" by (simp add: hd_drop_conv_nth)
  with Some show ?thesis by (simp add: hold_back_def)
qed

lemma hold_back_split:
  assumes near: "case rfind ESC x of None \<Rightarrow> True | Some k \<Rightarrow> length x - k \<le> 256"
  shows "hold_back (x @ y) =
           (fst (hold_back x) @ fst (hold_back (snd (hold_back x) @ y)),
            snd (hold_back (snd (hold_back x) @ y)))
         \<and> (fst (hold_back (snd (hold_back x) @ y)) = []
            \<or> hd (fst (hold_back (snd (hold_back x) @ y))) = ESC
            \<or> ESC \<notin> set (fst (hold_back x)))"
proof (cases "rfind ESC x")
  case None
  then have hx: "hold_back x = (x, [])" by (simp add: hold_back_def)
  from None have nx: "ESC \<notin> set x" by (simp add: rfind_None_iff)
  show ?thesis
  proof (cases "rfind ESC y")
    case None
    with \<open>rfind ESC x = None\<close> have "rfind ESC (x @ y) = None" by (simp add: rfind_append)
    with None hx nx show ?thesis by (simp add: hold_back_def)
  next
    case (Some k)
    then have xy: "rfind ESC (x @ y) = Some (length x + k)" by (simp add: rfind_append)
    from Some have "k < length y" by (simp add: rfind_Some_iff)
    with Some xy hx nx show ?thesis by (simp add: hold_back_def)
  qed
next
  case (Some k1)
  with near have le: "length x - k1 \<le> 256" by simp
  from Some have k1: "k1 < length x" "x ! k1 = ESC" by (simp_all add: rfind_Some_iff)
  from Some le have hx: "hold_back x = (take k1 x, drop k1 x)" by (simp add: hold_back_def)
  let ?z = "drop k1 x @ y"
  from k1 have z: "?z \<noteq> []" "hd ?z = ESC" by (simp_all add: hd_drop_conv_nth)
  then have "ESC \<in> set ?z" by (metis hd_in_set)
  then obtain k' where k': "rfind ESC ?z = Some k'"
    using rfind_None_iff [of ESC ?z] by (cases "rfind ESC ?z") auto
  then have k'z: "k' < length ?z" by (simp add: rfind_Some_iff)
  have xy: "x @ y = take k1 x @ ?z" by (simp flip: append_assoc)
  then have "rfind ESC (x @ y) = rfind ESC (take k1 x @ ?z)" by (rule arg_cong)
  also have "\<dots> = Some (length (take k1 x) + k')"
    unfolding rfind_append [of ESC "take k1 x" ?z] k' by simp
  also have "length (take k1 x) = k1" using k1 by simp
  finally have r: "rfind ESC (x @ y) = Some (k1 + k')" .
  have len: "length (x @ y) - (k1 + k') = length ?z - k'" using k1 by simp
  show ?thesis
  proof (cases "length ?z - k' > 256")
    case True
    with k' have hz: "hold_back ?z = (?z, [])" by (simp add: hold_back_def)
    have "length (x @ y) - (k1 + k') > 256" unfolding len by (rule True)
    with r have "hold_back (x @ y) = (x @ y, [])"
      by (simp add: hold_back_def del: length_append)
    with z show ?thesis unfolding hx fst_conv snd_conv hz
      by (simp flip: append_assoc)
  next
    case False
    with k' have hz: "hold_back ?z = (take k' ?z, drop k' ?z)" by (simp add: hold_back_def)
    have "\<not> length (x @ y) - (k1 + k') > 256" unfolding len by (rule False)
    with r have a: "hold_back (x @ y) = (take (k1 + k') (x @ y), drop (k1 + k') (x @ y))"
      by (simp add: hold_back_def del: length_append)
    have b: "take (k1 + k') (x @ y) = take k1 x @ take k' ?z"
      unfolding xy using k1 by (simp add: take_add min_def del: append_take_drop_id)
    have c: "drop (k1 + k') (x @ y) = drop k' ?z"
      unfolding xy using k1 by (simp add: min_def del: append_take_drop_id)
    have e: "hold_back (x @ y) = (take k1 x @ take k' ?z, drop k' ?z)"
      unfolding a b c ..
    have "take k' ?z = [] \<or> hd (take k' ?z) = ESC"
    proof -
      from z(1) obtain d ds where zz: "?z = d # ds" by (cases ?z) auto
      with z(2) have "d = ESC" by simp
      then show ?thesis unfolding zz by (cases k') simp_all
    qed
    with e show ?thesis unfolding hx fst_conv snd_conv hz by blast
  qed
qed

lemma last_esc_at_rfind: "last_esc_at b k \<longleftrightarrow> rfind ESC b = Some k"
  unfolding last_esc_at_def rfind_Some_iff ..

lemma complete_escapes_no_esc: "ESC \<notin> set x \<Longrightarrow> complete_escapes x"
  unfolding complete_escapes_iff by (metis nth_mem)

lemma logged_completes: "completes (logged ss r) \<longleftrightarrow> completes r"
  by (cases r; cases "snd r") (simp_all add: logged_def completes_def Let_def)

lemma list_all_upt: "list_all P [0..<N] \<Longrightarrow> \<forall>n<N. P n"
  by (simp add: list_all_iff)

lemma escape_in_text:
  "handle_text py s (a @ ESC # b) =
      and_then (handle_text py s a) (\<lambda>s2.
      and_then (put_char py s2 ESC) (\<lambda>s3. handle_text py s3 b))"
  unfolding handle_text_append handle_text.simps by (simp add: handle_char_def)

lemma escape_in_part:
  assumes "split_parts [] chunk = ps @ (a @ ESC # b) # qs" "a \<noteq> []" "hd a \<noteq> ESC"
  shows "process py s chunk =
        and_then (handle_parts py s ps) (\<lambda>s1.
        and_then (handle_text py s1 a) (\<lambda>s2.
        and_then (put_char py s2 ESC) (\<lambda>s3.
        and_then (handle_text py s3 b) (\<lambda>s4.
        handle_parts py s4 qs))))"
proof -
  from assms(2,3) have part: "handle_part py s' (a @ ESC # b) = handle_text py s' (a @ ESC # b)"
    for s'
    by (cases a) (simp_all add: handle_part_def startswith_def)
  from assms(1) have "process py s chunk = handle_parts py s (ps @ (a @ ESC # b) # qs)"
    by (simp add: process_def)
  also have "\<dots> = and_then (handle_parts py s ps) (\<lambda>s1.
      and_then (handle_text py s1 (a @ ESC # b)) (\<lambda>s4. handle_parts py s4 qs))"
    unfolding handle_parts_append handle_parts.simps part ..
  finally show ?thesis unfolding escape_in_text and_then_assoc .
qed

lemma escape_in_chunk:
  assumes ce: "complete_escapes pre" and a: "a \<noteq> []" "hd a \<noteq> ESC"
    and nm: "\<forall>n<length (a @ ESC # b). match_at (drop n ((a @ ESC # b) @ post)) = None"
    and p: "post = [] \<or> match_at post \<noteq> None"
  shows "process py s (pre @ (a @ ESC # b) @ post) =
        and_then (process py s pre) (\<lambda>s1.
        and_then (handle_text py s1 a) (\<lambda>s2.
        and_then (put_char py s2 ESC) (\<lambda>s3.
        and_then (handle_text py s3 b) (\<lambda>s4.
        process py s4 post))))"
proof -
  let ?r = "a @ ESC # b"
  from a have r: "?r \<noteq> []" "hd ?r \<noteq> ESC" by simp_all
  from a have "hd (?r @ post) \<noteq> ESC" by (cases a) simp_all
  then have y: "?r @ post = [] \<or> hd (?r @ post) \<noteq> ESC \<or> match_at (?r @ post) \<noteq> None"
    by blast
  have "process py s (pre @ ?r @ post) =
      and_then (process py s pre) (\<lambda>s1. process py s1 (?r @ post))"
    by (rule process_split [OF ce y])
  also have "\<dots> = and_then (process py s pre) (\<lambda>s1.
      and_then (handle_text py s1 ?r) (\<lambda>s4. process py s4 post))"
    unfolding process_run [OF r nm p] ..
  finally show ?thesis unfolding escape_in_text and_then_assoc .
qed

subsection \<open>A write too far to the right\<close>

text \<open>
  After \<open>ESC [ 99999999999999999999 G\<close> the next character cannot be padded. Read as
  one chunk with the line \<open>a\<close> before it, the exception leaves \<open>process\<close> before the
  line is returned, and nothing is logged; read after the line, the line is logged.
\<close>

lemma padding_failure_example:
  "snd (main_loop cpython session_init
     [u ''a'' @ [LF] @ ESC # u ''[99999999999999999999Gx'' @ ESC # u ''[K'']) =
     Inl AllocationError
   \<and> clean_file (fst (main_loop cpython session_init
     [u ''a'' @ [LF] @ ESC # u ''[99999999999999999999Gx'' @ ESC # u ''[K''])) = []
   \<and> clean_file (fst (main_loop cpython session_init
     [u ''a'' @ [LF], ESC # u ''[99999999999999999999Gx'' @ ESC # u ''[K''])) = [u ''a'']"
  by code_simp

section \<open>Claims\<close>

subsection \<open>The alternate-screen markers\<close>

text \<open>
  C1, as the claim states it, has the emitted line be exactly
  \<open>[LOG: Entered Interactive Mode]\<close>. The line \<open>_handle_csi\<close> appends starts with a
  line feed, so the claim fails at the initial state.
\<close>

theorem alt_screen_marker_counterexample:
  "snd (process cpython vt_init (ESC # u ''[?1049h'')) \<noteq>
     Inr [u ''[LOG: Entered Interactive Mode]'']"
  by code_simp

text \<open>
  C1, amended. For every prior state, processing \<open>ESC [ ? 1049 h\<close> or \<open>ESC [ ? 47 h\<close>
  emits exactly one completed line, a line feed followed by
  \<open>[LOG: Entered Interactive Mode]\<close>, and sets \<open>in_alt_screen\<close>; processing
  \<open>ESC [ ? 1049 l\<close> or \<open>ESC [ ? 47 l\<close> emits exactly a line feed followed by
  \<open>[LOG: Exited Interactive Mode]\<close> and clears \<open>in_alt_screen\<close>. Nothing else of the
  state changes.
\<close>

theorem alt_screen_markers:
  "process py s (ESC # u ''[?1049h'') =
     (s\<lparr>in_alt_screen := True\<rparr>, Inr [LF # u ''[LOG: Entered Interactive Mode]''])
   \<and> process py s (ESC # u ''[?47h'') =
     (s\<lparr>in_alt_screen := True\<rparr>, Inr [LF # u ''[LOG: Entered Interactive Mode]''])
   \<and> process py s (ESC # u ''[?1049l'') =
     (s\<lparr>in_alt_screen := False\<rparr>, Inr [LF # u ''[LOG: Exited Interactive Mode]''])
   \<and> process py s (ESC # u ''[?47l'') =
     (s\<lparr>in_alt_screen := False\<rparr>, Inr [LF # u ''[LOG: Exited Interactive Mode]''])"
  unfolding process_def split_parts_single_csi
  by (simp add: handle_part_def startswith_def handle_csi_def u_def)

theorem alt_screen_markers_witness:
  "in_alt_screen (fst (process cpython vt_init (ESC # u ''[?47h'')))
   \<and> snd (process cpython vt_init (ESC # u ''[?47h'')) =
       Inr [LF # u ''[LOG: Entered Interactive Mode]'']"
  using alt_screen_markers [of cpython vt_init] by simp

subsection \<open>Deduplication and the final flush\<close>

text \<open>
  C2. The read loop drops a line equal to \<open>last_logged_line\<close>; the \<open>finally\<close> block
  writes \<open>trailing_lines + vt.flush()\<close> with no such test. A session whose only output
  is \<open>abc\<close> without a line feed ends with two identical completed lines, both from the
  final flush, and both are written. In the read loop the same two lines, from \<open>abc\<close>
  sent twice with a line feed, leave one record.
\<close>

theorem final_flush_writes_duplicate:
  "snd (run_session cpython [u ''abc'']) = Inr [u ''abc'', u ''abc'']
   \<and> clean_file (fst (run_session cpython [u ''abc''])) = [u ''abc'', u ''abc'']
   \<and> snd (main_loop cpython session_init [u ''abc'' @ [LF] @ u ''abc'' @ [LF]]) =
       Inr [u ''abc'', u ''abc'']
   \<and> clean_file (fst (main_loop cpython session_init [u ''abc'' @ [LF] @ u ''abc'' @ [LF]])) =
       [u ''abc'']"
  by code_simp

subsection \<open>The chunk boundary buffer\<close>

text \<open>
  C4. For the pending text \<open>p\<close> and the new text \<open>t\<close>: with no escape character in
  \<open>p @ t\<close>, all of it is released and nothing stays pending; with \<open>k\<close> the index of the
  last escape character, all of it is released when \<open>length (p @ t) - k > 256\<close>, and
  otherwise the prefix before \<open>k\<close> is released and the rest from \<open>k\<close> on stays pending.
  \<open>feed\<close> keeps the second component as the pending buffer and hands the first to the
  tokenizer.
\<close>

theorem chunk_boundary_buffer:
  "(ESC \<notin> set (p @ t) \<longrightarrow> hold_back (p @ t) = (p @ t, []))
   \<and> (last_esc_at (p @ t) k \<and> length (p @ t) - k > 256 \<longrightarrow> hold_back (p @ t) = (p @ t, []))
   \<and> (last_esc_at (p @ t) k \<and> length (p @ t) - k \<le> 256 \<longrightarrow>
        hold_back (p @ t) = (take k (p @ t), drop k (p @ t)))
   \<and> (clean_log_buffer ss = p \<longrightarrow>
        clean_log_buffer (fst (feed py ss t)) = snd (hold_back (p @ t))
        \<and> feed py ss t =
            consume py (ss\<lparr>clean_log_buffer := snd (hold_back (p @ t))\<rparr>)
              (fst (hold_back (p @ t))))"
proof (intro conjI impI)
  assume "ESC \<notin> set (p @ t)"
  then have "rfind ESC (p @ t) = None"
    using rfind_None_iff [of ESC "p @ t"] by blast
  then show "hold_back (p @ t) = (p @ t, [])" by (simp add: hold_back_def)
next
  assume a: "last_esc_at (p @ t) k \<and> length (p @ t) - k > 256"
  then have "rfind ESC (p @ t) = Some k"
    unfolding last_esc_at_def using rfind_Some_iff [of ESC "p @ t" k] by blast
  with a show "hold_back (p @ t) = (p @ t, [])" by (simp add: hold_back_def)
next
  assume a: "last_esc_at (p @ t) k \<and> length (p @ t) - k \<le> 256"
  then have "rfind ESC (p @ t) = Some k"
    unfolding last_esc_at_def using rfind_Some_iff [of ESC "p @ t" k] by blast
  with a show "hold_back (p @ t) = (take k (p @ t), drop k (p @ t))"
    by (simp add: hold_back_def)
next
  assume "clean_log_buffer ss = p"
  then show "clean_log_buffer (fst (feed py ss t)) = snd (hold_back (p @ t))"
    by (simp add: feed_def split_beta consume_pending)
next
  assume "clean_log_buffer ss = p"
  then show "feed py ss t =
            consume py (ss\<lparr>clean_log_buffer := snd (hold_back (p @ t))\<rparr>)
              (fst (hold_back (p @ t)))"
    by (simp add: feed_def split: prod.splits)
qed

theorem chunk_boundary_buffer_witness:
  "hold_back (u ''ab'' @ u ''cd'') = (u ''abcd'', [])
   \<and> hold_back ([ESC] @ replicate 256 120) = (ESC # replicate 256 120, [])
   \<and> hold_back (u ''a'' @ ESC # u ''[1'') = (u ''a'', ESC # u ''[1'')
   \<and> clean_log_buffer (fst (feed cpython session_init (u ''a'' @ ESC # u ''[1''))) =
       ESC # u ''[1''"
proof -
  let ?x = "u ''a'' @ ESC # u ''[1''"
  have 1: "ESC \<notin> set (u ''ab'' @ u ''cd'')" by (simp add: u_def)
  have 2: "last_esc_at ([ESC] @ replicate 256 120) 0
           \<and> length ([ESC] @ replicate 256 120) - 0 > 256"
    by (simp add: last_esc_at_def)
  have 3: "last_esc_at ([] @ ?x) 1 \<and> length ([] @ ?x) - 1 \<le> 256"
    by (simp add: last_esc_at_def u_def)
  have 4: "clean_log_buffer session_init = []" by (simp add: session_init_def)
  have 5: "take 1 ?x = u ''a''" "drop 1 ?x = ESC # u ''[1''" "[] @ ?x = ?x"
    by (simp_all add: u_def)
  from chunk_boundary_buffer [of "u ''ab''" "u ''cd''" 0 session_init cpython] 1
  have a: "hold_back (u ''ab'' @ u ''cd'') = (u ''abcd'', [])" by (simp add: u_def)
  from chunk_boundary_buffer [of "[ESC]" "replicate 256 120" 0 session_init cpython] 2
  have b: "hold_back ([ESC] @ replicate 256 120) = (ESC # replicate 256 120, [])" by simp
  note T = chunk_boundary_buffer [of "[]" ?x 1 session_init cpython]
  from T 3 have "hold_back ([] @ ?x) = (take 1 ([] @ ?x), drop 1 ([] @ ?x))" by blast
  then have c: "hold_back ?x = (u ''a'', ESC # u ''[1'')" by (simp only: 5)
  from T 4 have "clean_log_buffer (fst (feed cpython session_init ?x)) =
      snd (hold_back ([] @ ?x))" by blast
  then have d: "clean_log_buffer (fst (feed cpython session_init ?x)) = ESC # u ''[1''"
    by (simp only: 5 c snd_conv)
  from a b c d show ?thesis by blast
qed

subsection \<open>Carriage return\<close>

text \<open>
  C6. On a carriage return in alternate-screen mode the trimmed buffer is emitted when
  it is not empty and buffer and cursor are reset; outside alternate-screen mode only
  the cursor is reset and no line is emitted. A chunk that is one carriage return does
  just this, and \<open>hello\<close>, carriage return, line feed from the initial state gives the
  one line \<open>hello\<close>.
\<close>

theorem carriage_return:
  "handle_char py s CR =
     (if in_alt_screen s
      then (s\<lparr>buffer := [], cursor_x := 0\<rparr>,
            Inr (if rstrip (buffer s) \<noteq> [] then [rstrip (buffer s)] else []))
      else (s\<lparr>cursor_x := 0\<rparr>, Inr []))
   \<and> process py s [CR] = handle_char py s CR
   \<and> snd (process py vt_init (u ''hello'' @ [CR, LF])) = Inr [u ''hello'']"
proof (intro conjI)
  show "handle_char py s CR =
     (if in_alt_screen s
      then (s\<lparr>buffer := [], cursor_x := 0\<rparr>,
            Inr (if rstrip (buffer s) \<noteq> [] then [rstrip (buffer s)] else []))
      else (s\<lparr>cursor_x := 0\<rparr>, Inr []))"
    by (simp add: handle_char_def flush_line_def Let_def)
  have cr: "split_parts [] [CR] = [[CR]]" by code_simp
  show "process py s [CR] = handle_char py s CR"
    unfolding process_def cr
    by (simp add: handle_part_def startswith_def)
  have hello: "split_parts [] (u ''hello'' @ [CR, LF]) = [u ''hello'' @ [CR, LF]]"
    by code_simp
  have plain: "\<forall>c\<in>set (u ''hello''). plain_char c" by (simp add: u_def plain_char_def)
  have strip: "rstrip (u ''hello'') = u ''hello''" "u ''hello'' \<noteq> []" by code_simp+
  have "handle_text py vt_init (u ''hello'') =
      (vt_init\<lparr>buffer := u ''hello'', cursor_x := length (u ''hello'')\<rparr>, Inr [])"
    using handle_text_plain [OF plain, of vt_init py] by (simp add: vt_init_def)
  then have run: "handle_text py vt_init (u ''hello'' @ [CR, LF]) = (vt_init, Inr [u ''hello''])"
    unfolding handle_text_append
    by (simp add: handle_char_def flush_line_def strip vt_init_def)
  have tp: "[u ''hello'' @ [CR, LF]] = text_part (u ''hello'' @ [CR, LF])" by code_simp
  have hd: "u ''hello'' @ [CR, LF] = [] \<or> hd (u ''hello'' @ [CR, LF]) \<noteq> ESC"
    by code_simp
  have "process py vt_init (u ''hello'' @ [CR, LF]) =
      handle_text py vt_init (u ''hello'' @ [CR, LF])"
    unfolding process_def hello tp by (rule handle_parts_text [OF hd])
  then show "snd (process py vt_init (u ''hello'' @ [CR, LF])) = Inr [u ''hello'']"
    unfolding run by simp
qed

theorem carriage_return_witness:
  "handle_char cpython (vt_init\<lparr>buffer := u ''ab '', cursor_x := 3, in_alt_screen := True\<rparr>) CR =
     (vt_init\<lparr>buffer := [], cursor_x := 0, in_alt_screen := True\<rparr>, Inr [u ''ab''])
   \<and> handle_char cpython (vt_init\<lparr>buffer := u ''ab '', cursor_x := 3\<rparr>) CR =
     (vt_init\<lparr>buffer := u ''ab '', cursor_x := 0\<rparr>, Inr [])"
proof -
  have r: "rstrip (u ''ab '') = u ''ab''" "u ''ab'' \<noteq> []" by code_simp+
  from carriage_return
    [of cpython "vt_init\<lparr>buffer := u ''ab '', cursor_x := 3, in_alt_screen := True\<rparr>"]
    carriage_return [of cpython "vt_init\<lparr>buffer := u ''ab '', cursor_x := 3\<rparr>"] r
  show ?thesis by (simp add: vt_init_def)
qed

subsection \<open>Backspace and overwrite\<close>

text \<open>
  C8. From the initial state, the text \<open>foo\<close>, two backspaces and then \<open>bar\<close> with a
  line feed give exactly one completed line, \<open>fbar\<close>.
\<close>

theorem backspace_overwrite_example:
  "snd (process py vt_init (u ''foo'' @ [BS, BS] @ u ''bar'' @ [LF])) = Inr [u ''fbar'']"
proof -
  let ?chunk = "u ''foo'' @ [BS, BS] @ u ''bar'' @ [LF]"
  have parts: "split_parts [] ?chunk = [?chunk]" by code_simp
  have tp: "[?chunk] = text_part ?chunk" by code_simp
  have hd: "?chunk = [] \<or> hd ?chunk \<noteq> ESC" by code_simp
  have strip: "rstrip (u ''fbar'') = u ''fbar''" "u ''fbar'' \<noteq> []" by code_simp+
  have foo: "handle_text py vt_init (u ''foo'') =
      (vt_init\<lparr>buffer := u ''foo'', cursor_x := 3\<rparr>, Inr [])"
    using handle_text_plain [of "u ''foo''" vt_init py]
    by (simp add: u_def plain_char_def vt_init_def)
  have bsp: "handle_text py (vt_init\<lparr>buffer := u ''foo'', cursor_x := 3\<rparr>) [BS, BS] =
      (vt_init\<lparr>buffer := u ''foo'', cursor_x := 1\<rparr>, Inr [])"
    by (simp add: handle_char_def)
  have bar: "handle_text py (vt_init\<lparr>buffer := u ''foo'', cursor_x := 1\<rparr>) (u ''bar'') =
      (vt_init\<lparr>buffer := u ''fbar'', cursor_x := 4\<rparr>, Inr [])"
    by (simp add: u_def handle_char_def put_char_def vt_init_def)
  have lf: "handle_text py (vt_init\<lparr>buffer := u ''fbar'', cursor_x := 4\<rparr>) [LF] =
      (vt_init, Inr [u ''fbar''])"
    by (simp add: handle_char_def flush_line_def strip vt_init_def)
  have "process py vt_init ?chunk = handle_text py vt_init ?chunk"
    unfolding process_def parts tp by (rule handle_parts_text [OF hd])
  also have "\<dots> = (vt_init, Inr [u ''fbar''])"
    unfolding handle_text_append foo and_then_unit bsp bar lf ..
  finally show ?thesis by simp
qed

theorem backspace_overwrite_example_witness:
  "process cpython vt_init (u ''foo'' @ [BS, BS] @ u ''bar'' @ [LF]) = (vt_init, Inr [u ''fbar''])"
proof -
  have "fst (process cpython vt_init (u ''foo'' @ [BS, BS] @ u ''bar'' @ [LF])) = vt_init"
    by code_simp
  with backspace_overwrite_example [of cpython] show ?thesis
    by (metis prod.collapse)
qed

subsection \<open>The cursor after a write\<close>

text \<open>
  C9, as the claim states it, asks for \<open>len(buffer) \<ge> cursor + 1\<close> with the cursor taken
  after the write. Writing one character into the empty buffer leaves a buffer of
  length 1 and the cursor at 1.
\<close>

theorem cursor_after_write_counterexample:
  "\<not> length (buffer (fst (handle_char cpython vt_init 97)))
       \<ge> cursor_x (fst (handle_char cpython vt_init 97)) + 1"
  by code_simp

text \<open>
  C9, amended. A character other than carriage return, line feed, backspace and bell
  that is written, at the cursor column \<open>c\<close> it finds, emits no line and moves the cursor
  to \<open>c + 1\<close>; afterwards \<open>len(buffer) \<ge> c + 1\<close>, that is, the buffer is at least as
  long as the cursor column after the write, and the character stands at column \<open>c\<close>.
  It is written whenever the padding up to \<open>c\<close> can be allocated; when it cannot, the
  write raises and buffer and cursor stay as they were.
\<close>

theorem cursor_after_write:
  "c \<noteq> CR \<Longrightarrow> c \<noteq> LF \<Longrightarrow> c \<noteq> BS \<Longrightarrow> c \<noteq> BEL \<Longrightarrow>
   (cursor_x s - length (buffer s) \<le> max_gap py \<longrightarrow>
      snd (handle_char py s c) = Inr []
      \<and> cursor_x (fst (handle_char py s c)) = cursor_x s + 1
      \<and> length (buffer (fst (handle_char py s c))) \<ge> cursor_x s + 1
      \<and> length (buffer (fst (handle_char py s c))) \<ge> cursor_x (fst (handle_char py s c))
      \<and> buffer (fst (handle_char py s c)) ! cursor_x s = c)
   \<and> (cursor_x s - length (buffer s) > max_gap py \<longrightarrow>
      handle_char py s c = (s, Inl AllocationError))"
  by (simp add: handle_char_def put_char_def Let_def)

theorem cursor_after_write_witness:
  "buffer (fst (handle_char cpython (vt_init\<lparr>cursor_x := 2\<rparr>) 97)) = [SP, SP, 97]
   \<and> cursor_x (fst (handle_char cpython (vt_init\<lparr>cursor_x := 2\<rparr>) 97)) = 3
   \<and> length (buffer (fst (handle_char cpython (vt_init\<lparr>cursor_x := 2\<rparr>) 97))) \<ge> 3
   \<and> handle_char (cpython\<lparr>max_gap := 1\<rparr>) (vt_init\<lparr>cursor_x := 2\<rparr>) 97 =
       (vt_init\<lparr>cursor_x := 2\<rparr>, Inl AllocationError)"
proof -
  have b: "buffer (fst (handle_char cpython (vt_init\<lparr>cursor_x := 2\<rparr>) 97)) = [SP, SP, 97]"
    by code_simp
  have g: "cursor_x (vt_init\<lparr>cursor_x := 2\<rparr>) - length (buffer (vt_init\<lparr>cursor_x := 2\<rparr>))
      \<le> max_gap cpython"
    "cursor_x (vt_init\<lparr>cursor_x := 2\<rparr>) - length (buffer (vt_init\<lparr>cursor_x := 2\<rparr>))
      > max_gap (cpython\<lparr>max_gap := 1\<rparr>)"
    by (simp_all add: vt_init_def cpython_def)
  from cursor_after_write [of 97 "vt_init\<lparr>cursor_x := 2\<rparr>" cpython]
    cursor_after_write [of 97 "vt_init\<lparr>cursor_x := 2\<rparr>" "cpython\<lparr>max_gap := 1\<rparr>"] b g
  show ?thesis by (simp add: vt_init_def)
qed

subsection \<open>The frame of \<open>flush\<close>\<close>

text \<open>
  C10. \<open>flush\<close> returns the state it was given: buffer, cursor and mode flags stay.
  So a second \<open>flush\<close> returns what the first did, on a non-empty buffer the trimmed
  buffer, and a session that ends with a non-empty buffer and no pending text writes
  that line twice, once for each \<open>vt.flush()\<close> of the \<open>finally\<close> block.
\<close>

theorem flush_frame:
  "fst (flush s) = s
   \<and> flush (fst (flush s)) = flush s
   \<and> (buffer s \<noteq> [] \<longrightarrow> snd (flush s) = [rstrip (buffer s)])
   \<and> (buffer (vt ss) \<noteq> [] \<and> clean_log_buffer ss = [] \<longrightarrow>
        snd (finish py ss) = Inr [rstrip (buffer (vt ss)), rstrip (buffer (vt ss))]
        \<and> clean_file (fst (finish py ss)) =
            clean_file ss @ [rstrip (buffer (vt ss)), rstrip (buffer (vt ss))]
        \<and> vt (fst (finish py ss)) = vt ss)"
  by (simp add: flush_def finish_def Let_def)

theorem flush_frame_witness:
  "clean_file (fst (finish cpython (fst (main_loop cpython session_init [u ''ab ''])))) =
     [u ''ab'', u ''ab'']"
proof -
  let ?ss = "fst (main_loop cpython session_init [u ''ab ''])"
  have 1: "buffer (vt ?ss) = u ''ab ''" by code_simp
  have 2: "clean_log_buffer ?ss = []" by code_simp
  have 3: "clean_file ?ss = []" by code_simp
  have 4: "rstrip (u ''ab '') = u ''ab''" by code_simp
  have 5: "u ''ab '' \<noteq> []" by code_simp
  from flush_frame [of "vt ?ss" ?ss cpython] 1 2 3 4 5 show ?thesis by simp
qed

subsection \<open>Splitting a stream into two reads\<close>

text \<open>
  C3, as the claim states it: for every \<open>s\<close> and every split position that lands at most
  256 characters past an escape character, the two reads give the completed lines of the
  single read. In \<open>a ESC b LF ESC [ K\<close> the first escape character begins no sequence.
  Read whole, the text \<open>a ESC b\<close> is one run, written into the buffer and emitted at
  the line feed. Split one character past that escape character, the second read
  releases the run \<open>ESC b LF\<close>, which begins with the escape character and is
  discarded as a whole by the loop of \<open>process\<close>; \<open>a\<close> stays in the buffer and is
  flushed twice at the end.
\<close>

theorem split_chunk_counterexample:
  "last_esc_at (take 2 [97, ESC, 98, LF, ESC, 91, 75]) 1
   \<and> snd (main_loop cpython session_init
          [take 2 [97, ESC, 98, LF, ESC, 91, 75], drop 2 [97, ESC, 98, LF, ESC, 91, 75]]) = Inr []
   \<and> snd (main_loop cpython session_init [[97, ESC, 98, LF, ESC, 91, 75]]) =
       Inr [[97, ESC, 98]]
   \<and> snd (run_session cpython
          [take 2 [97, ESC, 98, LF, ESC, 91, 75], drop 2 [97, ESC, 98, LF, ESC, 91, 75]]) =
       Inr [[97], [97]]
   \<and> snd (run_session cpython [[97, ESC, 98, LF, ESC, 91, 75]]) = Inr [[97, ESC, 98]]
   \<and> snd (run_session cpython
          [take 2 [97, ESC, 98, LF, ESC, 91, 75], drop 2 [97, ESC, 98, LF, ESC, 91, 75]]) \<noteq>
       snd (run_session cpython [[97, ESC, 98, LF, ESC, 91, 75]])"
  by code_simp

text \<open>
  C3, amended. Take the text that the single read of \<open>s\<close> releases for tokenizing
  (\<open>fst (hold_back s)\<close>: all of \<open>s\<close>, or the text before its last escape character when
  that lies within the last 256 characters). Let every escape character of it begin a
  CSI, OSC or two-character sequence that the tokenizer matches there and that holds no
  further escape character; let the single read raise no exception; and let the split
  position \<open>i\<close>, with \<open>0 < i < length s\<close>, lie at most 256 characters past the last
  escape character before it. Then, from any session state with an empty pending
  buffer, feeding \<open>s[0..i)\<close> and then \<open>s[i..end)\<close> gives the same completed lines, the
  same emulator state, pending text and clean log as feeding \<open>s\<close> as one chunk, and
  the whole sessions, final flush included, are equal.
\<close>

theorem split_chunk_equivalence:
  assumes ce: "complete_escapes (fst (hold_back s))" and i: "0 < i" "i < length s"
    and near: "\<forall>k. last_esc_at (take i s) k \<longrightarrow> i - k \<le> 256"
    and fresh: "clean_log_buffer ss = []"
    and ok: "completes (feed py ss s)"
  shows "main_loop py ss [take i s, drop i s] = main_loop py ss [s]
         \<and> session_from py ss [take i s, drop i s] = session_from py ss [s]"
proof -
  let ?x = "take i s" and ?y = "drop i s"
  let ?tp1 = "fst (hold_back ?x)" and ?r1 = "snd (hold_back ?x)"
  let ?tp2 = "fst (hold_back (?r1 @ ?y))" and ?r2 = "snd (hold_back (?r1 @ ?y))"
  have "case rfind ESC ?x of None \<Rightarrow> True | Some k \<Rightarrow> length ?x - k \<le> 256"
    using near i by (auto simp: last_esc_at_rfind min_def split: option.splits)
  from hold_back_split [OF this, of ?y]
  have hb: "hold_back s = (?tp1 @ ?tp2, ?r2)"
    and safe: "?tp2 = [] \<or> hd ?tp2 = ESC \<or> ESC \<notin> set ?tp1"
    by simp_all
  from ce hb have ce': "complete_escapes (?tp1 @ ?tp2)" by simp
  have ce1: "complete_escapes ?tp1"
  proof (cases "?tp2 = [] \<or> hd ?tp2 = ESC")
    case True
    with ce' show ?thesis by (rule complete_escapes_prefix)
  next
    case False
    with safe show ?thesis by (intro complete_escapes_no_esc) blast
  qed
  have next_part: "?tp2 = [] \<or> hd ?tp2 \<noteq> ESC \<or> match_at ?tp2 \<noteq> None"
  proof (cases "?tp2 \<noteq> [] \<and> hd ?tp2 = ESC")
    case True
    then obtain cs where t: "?tp2 = ESC # cs" by (cases ?tp2) auto
    from ce' have "complete_escapes ?tp2" by (rule complete_escapes_suffix)
    then have "complete_escapes (ESC # cs)" unfolding t .
    from complete_escapes_head [OF this] show ?thesis unfolding t by auto
  next
    case False
    then show ?thesis by blast
  qed
  have single: "feed py ss s = consume py (ss\<lparr>clean_log_buffer := ?r2\<rparr>) (?tp1 @ ?tp2)"
    unfolding feed_def fresh append_Nil hb by simp
  have "completes (consume py (ss\<lparr>clean_log_buffer := ?r2\<rparr>) (?tp1 @ ?tp2))"
    using ok unfolding single .
  then have okp: "completes (process py (vt ss) (?tp1 @ ?tp2))"
    unfolding consume_eq logged_completes by simp
  have cs: "consume py ss (?tp1 @ ?tp2) =
      and_then (consume py ss ?tp1) (\<lambda>s1. consume py s1 ?tp2)"
    by (rule consume_split [OF ce1 next_part okp])
  obtain s0 r1 where c1: "consume py ss ?tp1 = (s0, r1)"
    by (cases "consume py ss ?tp1")
  obtain s2 r2 where c2: "consume py s0 ?tp2 = (s2, r2)"
    by (cases "consume py s0 ?tp2")
  have whole: "consume py ss (?tp1 @ ?tp2) = and_then (s0, r1) (\<lambda>s1. (s2, r2))"
    unfolding cs c1 by (simp add: and_then_def c2 split: sum.splits)
  have first: "feed py ss ?x = (s0\<lparr>clean_log_buffer := ?r1\<rparr>, r1)"
    unfolding feed_def fresh append_Nil
    by (simp add: split_beta consume_pending c1)
  have second: "feed py (s0\<lparr>clean_log_buffer := ?r1\<rparr>) ?y =
      (s2\<lparr>clean_log_buffer := ?r2\<rparr>, r2)"
    unfolding feed_def by (simp add: split_beta consume_pending c2)
  from okp have "completes (consume py ss (?tp1 @ ?tp2))"
    unfolding consume_eq logged_completes .
  then obtain l1 where r1: "r1 = Inr l1"
    unfolding whole by (cases r1) (simp_all add: completes_def)
  from i have ne: "?x \<noteq> []" "?y \<noteq> []" "s \<noteq> []" by auto
  have loop: "main_loop py ss [?x, ?y] = main_loop py ss [s]"
    unfolding single consume_pending whole
    using ne by (simp add: single consume_pending whole first second r1 and_then_def
        split: sum.splits)
  show ?thesis unfolding session_from_def loop by simp
qed
theorem split_chunk_equivalence_witness:
  "main_loop cpython session_init
     [u ''ab'' @ [ESC], u ''[2Kcd'' @ [LF] @ ESC # u ''[?10''] =
   main_loop cpython session_init
     [u ''ab'' @ ESC # u ''[2Kcd'' @ [LF] @ ESC # u ''[?10'']
   \<and> snd (main_loop cpython session_init
          [u ''ab'' @ ESC # u ''[2Kcd'' @ [LF] @ ESC # u ''[?10'']) = Inr [u ''cd'']"
proof -
  let ?s = "u ''ab'' @ ESC # u ''[2Kcd'' @ [LF] @ ESC # u ''[?10''"
  have 1: "complete_escapes (fst (hold_back ?s))" by code_simp
  have 2: "(0::nat) < 3" "3 < length ?s" by code_simp+
  have 3: "\<forall>k. last_esc_at (take 3 ?s) k \<longrightarrow> 3 - k \<le> 256"
  proof (intro allI impI)
    fix k :: nat
    show "3 - k \<le> 256" by simp
  qed
  have 4: "clean_log_buffer session_init = []" by (simp add: session_init_def)
  have 5: "take 3 ?s = u ''ab'' @ [ESC]"
    "drop 3 ?s = u ''[2Kcd'' @ [LF] @ ESC # u ''[?10''"
    by code_simp+
  have 6: "snd (main_loop cpython session_init [?s]) = Inr [u ''cd'']" by code_simp
  have 7: "completes (feed cpython session_init ?s)" by code_simp
  from split_chunk_equivalence [OF 1 2 3 4 7] 6 show ?thesis
    unfolding 5 by blast
qed

subsection \<open>An escape character that begins no sequence\<close>

text \<open>
  C5, as the claim states it, has such an escape character dropped: never written into
  the line buffer, never part of a completed line. In \<open>a ESC Z\<close> the escape character
  begins none of the three forms; it is written into the buffer after \<open>a\<close>, and the line
  feed emits the line \<open>a ESC Z\<close>.
\<close>

theorem unmatched_escape_counterexample:
  "match_at [ESC, 90, LF] = None
   \<and> buffer (fst (process cpython vt_init [97, ESC, 90])) = [97, ESC, 90]
   \<and> snd (process cpython vt_init [97, ESC, 90, LF]) = Inr [[97, ESC, 90]]"
  by code_simp

text \<open>
  C5, amended. Whenever the tokenizer's split of a chunk has a part \<open>a ESC b\<close> with
  \<open>a\<close> non-empty and not beginning with an escape character, the chunk is processed
  as the parts before it, then \<open>a\<close> as text, then the escape character written into
  the line buffer at the cursor like any other character, then \<open>b\<close> as text, then the
  parts after it; it runs to the end unless a write fails to allocate its padding.
  This is the case in every chunk \<open>pre a ESC b post\<close> where each escape character of
  \<open>pre\<close> begins a complete sequence without a further escape character, no sequence is
  matched at any position of \<open>a ESC b\<close>, and \<open>post\<close> is empty or begins with a
  matched sequence. The text handler treats the escape character as it treats a letter.
  Nothing is said of a text part that begins with an escape character.
\<close>

theorem unmatched_escape_is_text:
  "(split_parts [] chunk = ps @ (a @ ESC # b) # qs \<and> a \<noteq> [] \<and> hd a \<noteq> ESC \<longrightarrow>
      process py s chunk =
        and_then (handle_parts py s ps) (\<lambda>s1.
        and_then (handle_text py s1 a) (\<lambda>s2.
        and_then (put_char py s2 ESC) (\<lambda>s3.
        and_then (handle_text py s3 b) (\<lambda>s4.
        handle_parts py s4 qs)))))
   \<and> (complete_escapes pre \<and> a \<noteq> [] \<and> hd a \<noteq> ESC
      \<and> (\<forall>n<length (a @ ESC # b). match_at (drop n ((a @ ESC # b) @ post)) = None)
      \<and> (post = [] \<or> match_at post \<noteq> None) \<longrightarrow>
      process py s (pre @ (a @ ESC # b) @ post) =
        and_then (process py s pre) (\<lambda>s1.
        and_then (handle_text py s1 a) (\<lambda>s2.
        and_then (put_char py s2 ESC) (\<lambda>s3.
        and_then (handle_text py s3 b) (\<lambda>s4.
        process py s4 post)))))
   \<and> handle_char py s ESC = put_char py s ESC"
proof (intro conjI impI)
  assume h: "split_parts [] chunk = ps @ (a @ ESC # b) # qs \<and> a \<noteq> [] \<and> hd a \<noteq> ESC"
  show "process py s chunk =
        and_then (handle_parts py s ps) (\<lambda>s1.
        and_then (handle_text py s1 a) (\<lambda>s2.
        and_then (put_char py s2 ESC) (\<lambda>s3.
        and_then (handle_text py s3 b) (\<lambda>s4.
        handle_parts py s4 qs))))"
    by (rule escape_in_part [OF h [THEN conjunct1] h [THEN conjunct2, THEN conjunct1]
          h [THEN conjunct2, THEN conjunct2]])
next
  assume h: "complete_escapes pre \<and> a \<noteq> [] \<and> hd a \<noteq> ESC
      \<and> (\<forall>n<length (a @ ESC # b). match_at (drop n ((a @ ESC # b) @ post)) = None)
      \<and> (post = [] \<or> match_at post \<noteq> None)"
  note h2 = h [THEN conjunct2] 
  note h3 = h2 [THEN conjunct2]
  note h4 = h3 [THEN conjunct2]
  show "process py s (pre @ (a @ ESC # b) @ post) =
        and_then (process py s pre) (\<lambda>s1.
        and_then (handle_text py s1 a) (\<lambda>s2.
        and_then (put_char py s2 ESC) (\<lambda>s3.
        and_then (handle_text py s3 b) (\<lambda>s4.
        process py s4 post))))"
    by (rule escape_in_chunk [OF h [THEN conjunct1] h2 [THEN conjunct1] h3 [THEN conjunct1]
          h4 [THEN conjunct1] h4 [THEN conjunct2]])
next
  show "handle_char py s ESC = put_char py s ESC" by (simp add: handle_char_def)
qed

theorem unmatched_escape_is_text_witness:
  "split_parts [] (ESC # u ''[Ka'' @ ESC # u ''Zb'' @ [LF] @ ESC # u ''[K'') =
     [ESC # u ''[K'', u ''a'' @ ESC # u ''Zb'' @ [LF], ESC # u ''[K'']
   \<and> process cpython (vt_init\<lparr>buffer := u ''xyz'', cursor_x := 1\<rparr>)
        (ESC # u ''[Ka'' @ ESC # u ''Zb'' @ [LF] @ ESC # u ''[K'') =
       (vt_init, Inr [u ''xa'' @ ESC # u ''Zb''])
   \<and> process cpython (vt_init\<lparr>buffer := u ''xyz'', cursor_x := 1\<rparr>)
        ((ESC # u ''[K'') @ (u ''a'' @ ESC # u ''Zb'' @ [LF]) @ ESC # u ''[K'') =
       (vt_init, Inr [u ''xa'' @ ESC # u ''Zb''])"
proof -
  let ?chunk = "ESC # u ''[Ka'' @ ESC # u ''Zb'' @ [LF] @ ESC # u ''[K''"
  let ?s = "vt_init\<lparr>buffer := u ''xyz'', cursor_x := 1\<rparr>"
  let ?pre = "ESC # u ''[K''" and ?a = "u ''a''" and ?b = "u ''Zb'' @ [LF]"
  let ?post = "ESC # u ''[K''"
  have 1: "split_parts [] ?chunk = [?pre] @ (?a @ ESC # ?b) # [?post]
      \<and> ?a \<noteq> [] \<and> hd ?a \<noteq> ESC"
    by code_simp
  have 2: "and_then (handle_parts cpython ?s [?pre]) (\<lambda>s1.
        and_then (handle_text cpython s1 ?a) (\<lambda>s2.
        and_then (put_char cpython s2 ESC) (\<lambda>s3.
        and_then (handle_text cpython s3 ?b) (\<lambda>s4.
        handle_parts cpython s4 [?post])))) = (vt_init, Inr [u ''xa'' @ ESC # u ''Zb''])"
    by code_simp
  have 3: "split_parts [] ?chunk = [?pre, u ''a'' @ ESC # u ''Zb'' @ [LF], ?post]"
    by code_simp
  have "list_all (\<lambda>n. match_at (drop n ((?a @ ESC # ?b) @ ?post)) = None)
      [0..<length (?a @ ESC # ?b)]"
    by code_simp
  then have 4: "\<forall>n<length (?a @ ESC # ?b). match_at (drop n ((?a @ ESC # ?b) @ ?post)) = None"
    by (rule list_all_upt)
  have 5: "complete_escapes ?pre" "?a \<noteq> []" "hd ?a \<noteq> ESC"
    "?post = [] \<or> match_at ?post \<noteq> None"
    by code_simp+
  have 6: "and_then (process cpython ?s ?pre) (\<lambda>s1.
        and_then (handle_text cpython s1 ?a) (\<lambda>s2.
        and_then (put_char cpython s2 ESC) (\<lambda>s3.
        and_then (handle_text cpython s3 ?b) (\<lambda>s4.
        process cpython s4 ?post)))) = (vt_init, Inr [u ''xa'' @ ESC # u ''Zb''])"
    by code_simp
  note T = unmatched_escape_is_text
    [of ?chunk "[?pre]" ?a ?b "[?post]" cpython ?s ?pre ?post]
  from T 1 have a: "process cpython ?s ?chunk = (vt_init, Inr [u ''xa'' @ ESC # u ''Zb''])"
    unfolding 2 by blast
  from T 4 5 have b: "process cpython ?s (?pre @ (?a @ ESC # ?b) @ ?post) =
      (vt_init, Inr [u ''xa'' @ ESC # u ''Zb''])"
    unfolding 6 by blast
  from 3 a b show ?thesis by blast
qed

subsection \<open>Plain text and line feeds\<close>

text \<open>
  C7, as the claim states it, has the completed lines equal the trimmed segments between
  the line feeds. A segment that is empty after trimming is no completed line
  (\<open>if line_str\<close>): of the three segments \<open>a\<close>, the empty one and \<open>b\<close>, two lines are
  emitted.
\<close>

theorem plain_text_lines_counterexample:
  "snd (process cpython vt_init (concat (map (\<lambda>seg. seg @ [LF]) [u ''a'', [], u ''b''])))
     \<noteq> Inr (map rstrip [u ''a'', [], u ''b''])
   \<and> snd (process cpython vt_init (concat (map (\<lambda>seg. seg @ [LF]) [u ''a'', [], u ''b''])))
     = Inr [u ''a'', u ''b'']"
  by code_simp

text \<open>
  C7, amended. For plain text interleaved with line feeds, from the initial state, the
  completed lines are the segments that a line feed ends, each with trailing whitespace
  stripped, in arrival order, without the segments that are empty after stripping. The
  text after the last line feed stays in the buffer, with the cursor at its end.
\<close>

theorem plain_text_lines:
  assumes "\<forall>seg\<in>set segs. \<forall>c\<in>set seg. plain_char c" and "\<forall>c\<in>set rest. plain_char c"
  shows "process py vt_init (concat (map (\<lambda>seg. seg @ [LF]) segs) @ rest) =
           (vt_init\<lparr>buffer := rest, cursor_x := length rest\<rparr>,
            Inr (filter (\<lambda>l. l \<noteq> []) (map rstrip segs)))"
proof -
  let ?body = "concat (map (\<lambda>seg. seg @ [LF]) segs)"
  let ?lines = "filter (\<lambda>l. l \<noteq> []) (map rstrip segs)"
  from assms have noesc: "ESC \<notin> set (?body @ rest)"
    by (auto simp: plain_char_def)
  then have hd: "?body @ rest = [] \<or> hd (?body @ rest) \<noteq> ESC"
    by (cases "?body @ rest") auto
  have b: "handle_text py vt_init ?body = (vt_init, Inr ?lines)"
    using assms(1) by (intro handle_text_segments) (simp_all add: vt_init_def)
  have r: "handle_text py vt_init rest =
      (vt_init\<lparr>buffer := rest, cursor_x := length rest\<rparr>, Inr [])"
    using handle_text_plain [of rest vt_init py] assms(2) by (simp add: vt_init_def)
  have "process py vt_init (?body @ rest) = handle_text py vt_init (?body @ rest)"
    unfolding process_def split_parts_no_esc [OF noesc] append_Nil
    by (rule handle_parts_text [OF hd])
  also have "\<dots> = and_then (handle_text py vt_init ?body) (\<lambda>s1. handle_text py s1 rest)"
    by (rule handle_text_append)
  also have "\<dots> = (vt_init\<lparr>buffer := rest, cursor_x := length rest\<rparr>, Inr ?lines)"
    unfolding b by (simp add: and_then_def r)
  finally show ?thesis .
qed

theorem plain_text_lines_witness:
  "process cpython vt_init
     (concat (map (\<lambda>seg. seg @ [LF]) [u ''ab  '', [], u ''c d'']) @ u ''ef'') =
      (vt_init\<lparr>buffer := u ''ef'', cursor_x := 2\<rparr>, Inr [u ''ab'', u ''c d''])"
proof -
  have 1: "\<forall>seg\<in>set [u ''ab  '', [], u ''c d'']. \<forall>c\<in>set seg. plain_char c"
    by (simp add: u_def plain_char_def)
  have 2: "\<forall>c\<in>set (u ''ef''). plain_char c" by (simp add: u_def plain_char_def)
  have 3: "filter (\<lambda>l. l \<noteq> []) (map rstrip [u ''ab  '', [], u ''c d'']) = [u ''ab'', u ''c d'']"
    by code_simp
  have 4: "length (u ''ef'') = 2" by code_simp
  from plain_text_lines [OF 1 2, of cpython] show ?thesis unfolding 3 4 .
qed

end
